theory Spec2Isabelle
  imports Main
begin

section \<open>Expression graph model\<close>

text \<open>
  Python objects live in a heap. A node object is addressed by its index in \<open>nodes\<close>.
  The attribute \<open>children\<close> of an \<open>Add\<close> or \<open>Mul\<close> node is a list object of its own
  (created by \<open>[None]*2\<close> and never resized), addressed by its index in \<open>kids\<close>: two node
  objects that hold the same list address share their children, which is what
  \<open>copy.copy\<close> produces. \<open>Symbol\<close> and \<open>Constant\<close> have an empty \<open>children\<close> list, which no
  code path writes to, so it is not represented. Numbers are Python integers.
\<close>

type_synonym ref = nat
type_synonym cref = nat

datatype node = Symbol string | Constant int | Add cref | Mul cref

record heap =
  nodes :: "node list"
  kids :: "(ref \<times> ref) list"

definition empty_heap :: heap where
  "empty_heap = \<lparr>nodes = [], kids = []\<rparr>"

definition node_at :: "heap \<Rightarrow> ref \<Rightarrow> node option" where
  "node_at h n = (if n < length (nodes h) then Some (nodes h ! n) else None)"

definition kids_at :: "heap \<Rightarrow> cref \<Rightarrow> (ref \<times> ref) option" where
  "kids_at h c = (if c < length (kids h) then Some (kids h ! c) else None)"

text \<open>\<open>node.children\<close> as a sequence; \<open>None\<close> only for a dangling address.\<close>

definition children :: "heap \<Rightarrow> node \<Rightarrow> ref list option" where
  "children h nd = (case nd of
      Symbol s \<Rightarrow> Some []
    | Constant v \<Rightarrow> Some []
    | Add c \<Rightarrow> map_option (\<lambda>(a, b). [a, b]) (kids_at h c)
    | Mul c \<Rightarrow> map_option (\<lambda>(a, b). [a, b]) (kids_at h c))"

text \<open>\<open>node.children\<close> of the node at an address.\<close>

definition kids_of :: "heap \<Rightarrow> ref \<Rightarrow> ref list option" where
  "kids_of h n = (case node_at h n of None \<Rightarrow> None | Some nd \<Rightarrow> children h nd)"

text \<open>
  Dictionary keys. \<open>Symbol\<close> defines \<open>__eq__\<close> and \<open>__hash__\<close> by name; every other node
  class inherits identity equality.
\<close>

datatype key = KSym string | KObj ref

definition key_of :: "heap \<Rightarrow> ref \<Rightarrow> key" where
  "key_of h n = (case node_at h n of Some (Symbol s) \<Rightarrow> KSym s | _ \<Rightarrow> KObj n)"

datatype error = KeyError key

definition lookup :: "(key \<rightharpoonup> 'a) \<Rightarrow> key \<Rightarrow> error + 'a" where
  "lookup d k = (case d k of None \<Rightarrow> Inl (KeyError k) | Some v \<Rightarrow> Inr v)"

subsection \<open>Builders\<close>

definition alloc :: "heap \<Rightarrow> node \<Rightarrow> heap \<times> ref" where
  "alloc h nd = (h\<lparr>nodes := nodes h @ [nd]\<rparr>, length (nodes h))"

definition new_Symbol :: "heap \<Rightarrow> string \<Rightarrow> heap \<times> ref" where
  "new_Symbol h s = alloc h (Symbol s)"

definition new_Constant :: "heap \<Rightarrow> int \<Rightarrow> heap \<times> ref" where
  "new_Constant h v = alloc h (Constant v)"

text \<open>\<open>n = Add(); n.children[0] = x; n.children[1] = y\<close>\<close>

definition new_Add :: "heap \<Rightarrow> ref \<Rightarrow> ref \<Rightarrow> heap \<times> ref" where
  "new_Add h x y = alloc (h\<lparr>kids := kids h @ [(x, y)]\<rparr>) (Add (length (kids h)))"

definition new_Mul :: "heap \<Rightarrow> ref \<Rightarrow> ref \<Rightarrow> heap \<times> ref" where
  "new_Mul h x y = alloc (h\<lparr>kids := kids h @ [(x, y)]\<rparr>) (Mul (length (kids h)))"

text \<open>An operand of a builder is a node or a plain number; \<open>wrap_args\<close> turns numbers into
  \<open>Constant\<close> objects, left operand first.\<close>

datatype arg = N ref | Num int

definition wrap_arg :: "heap \<Rightarrow> arg \<Rightarrow> heap \<times> ref" where
  "wrap_arg h a = (case a of N r \<Rightarrow> (h, r) | Num v \<Rightarrow> new_Constant h v)"

definition sym_add :: "heap \<Rightarrow> arg \<Rightarrow> arg \<Rightarrow> heap \<times> ref" where
  "sym_add h x y =
     (case wrap_arg h x of (h1, x') \<Rightarrow>
      case wrap_arg h1 y of (h2, y') \<Rightarrow> new_Add h2 x' y')"

definition sym_mul :: "heap \<Rightarrow> arg \<Rightarrow> arg \<Rightarrow> heap \<times> ref" where
  "sym_mul h x y =
     (case wrap_arg h x of (h1, x') \<Rightarrow>
      case wrap_arg h1 y of (h2, y') \<Rightarrow> new_Mul h2 x' y')"

section \<open>Evaluator\<close>

text \<open>
  \<open>postorder\<close> is a recursive generator. The fuel bounds the recursion depth; the result is
  \<open>None\<close> when it is exhausted (Python: the recursion does not return) or an address dangles.
\<close>

fun postorder :: "nat \<Rightarrow> heap \<Rightarrow> ref \<Rightarrow> ref list option"
  and postorder_list :: "nat \<Rightarrow> heap \<Rightarrow> ref list \<Rightarrow> ref list option" where
  "postorder 0 h n = None"
| "postorder (Suc k) h n =
     (case node_at h n of None \<Rightarrow> None
      | Some nd \<Rightarrow>
        (case children h nd of None \<Rightarrow> None
         | Some cs \<Rightarrow>
           (case postorder_list k h cs of None \<Rightarrow> None
            | Some xs \<Rightarrow> Some (xs @ [n]))))"
| "postorder_list k h [] = Some []"
| "postorder_list k h (c # cs) =
     (case postorder k h c of None \<Rightarrow> None
      | Some xs \<Rightarrow>
        (case postorder_list k h cs of None \<Rightarrow> None
         | Some ys \<Rightarrow> Some (xs @ ys)))"

text \<open>\<open>compute_value\<close> of each class. \<open>values[a] + values[b]\<close> looks up the left operand first.\<close>

definition compute_value :: "heap \<Rightarrow> (key \<rightharpoonup> int) \<Rightarrow> node \<Rightarrow> (error + int) option" where
  "compute_value h v nd = (case nd of
      Symbol s \<Rightarrow> Some (lookup v (KSym s))
    | Constant c \<Rightarrow> Some (Inr c)
    | Add c \<Rightarrow> (case kids_at h c of None \<Rightarrow> None
        | Some (a, b) \<Rightarrow> Some (case lookup v (key_of h a) of Inl e \<Rightarrow> Inl e
            | Inr x \<Rightarrow> (case lookup v (key_of h b) of Inl e \<Rightarrow> Inl e | Inr y \<Rightarrow> Inr (x + y))))
    | Mul c \<Rightarrow> (case kids_at h c of None \<Rightarrow> None
        | Some (a, b) \<Rightarrow> Some (case lookup v (key_of h a) of Inl e \<Rightarrow> Inl e
            | Inr x \<Rightarrow> (case lookup v (key_of h b) of Inl e \<Rightarrow> Inl e | Inr y \<Rightarrow> Inr (x * y)))))"

text \<open>The loop of \<open>values\<close>: \<open>if not n in v: v[n] = n.compute_value(v)\<close>.\<close>

fun values_loop :: "heap \<Rightarrow> (key \<rightharpoonup> int) \<Rightarrow> ref list \<Rightarrow> (error + (key \<rightharpoonup> int)) option" where
  "values_loop h v [] = Some (Inr v)"
| "values_loop h v (n # ns) =
     (case v (key_of h n) of
        Some x \<Rightarrow> values_loop h v ns
      | None \<Rightarrow>
        (case node_at h n of None \<Rightarrow> None
         | Some nd \<Rightarrow>
           (case compute_value h v nd of None \<Rightarrow> None
            | Some (Inl e) \<Rightarrow> Some (Inl e)
            | Some (Inr x) \<Rightarrow> values_loop h (v(key_of h n \<mapsto> x)) ns)))"

text \<open>\<open>v = {}; v.update(fargs)\<close>, then the loop over \<open>postorder(f)\<close>. The loop does not write
  to the graph, so the generator's output does not depend on the loop body.\<close>

definition "values" :: "nat \<Rightarrow> heap \<Rightarrow> ref \<Rightarrow> (key \<rightharpoonup> int) \<Rightarrow> (error + (key \<rightharpoonup> int)) option" where
  "values k h f fargs =
     (case postorder k h f of None \<Rightarrow> None
      | Some ns \<Rightarrow> values_loop h (Map.empty ++ fargs) ns)"

text \<open>\<open>value(f, fargs) = values(f, fargs)[f]\<close> (the name \<open>value\<close> is reserved here).\<close>

definition value_of :: "nat \<Rightarrow> heap \<Rightarrow> ref \<Rightarrow> (key \<rightharpoonup> int) \<Rightarrow> (error + int) option" where
  "value_of k h f fargs =
     (case values k h f fargs of None \<Rightarrow> None
      | Some (Inl e) \<Rightarrow> Some (Inl e)
      | Some (Inr v) \<Rightarrow> Some (lookup v (key_of h f)))"

section \<open>Numeric gradient\<close>

definition compute_gradient :: "heap \<Rightarrow> (key \<rightharpoonup> int) \<Rightarrow> node \<Rightarrow> (error + int list) option" where
  "compute_gradient h v nd = (case nd of
      Symbol s \<Rightarrow> Some (Inr [])
    | Constant c \<Rightarrow> Some (Inr [])
    | Add c \<Rightarrow> Some (Inr [1, 1])
    | Mul c \<Rightarrow> (case kids_at h c of None \<Rightarrow> None
        | Some (a, b) \<Rightarrow> Some (case lookup v (key_of h b) of Inl e \<Rightarrow> Inl e
            | Inr y \<Rightarrow> (case lookup v (key_of h a) of Inl e \<Rightarrow> Inl e | Inr x \<Rightarrow> Inr [y, x]))))"

text \<open>
  The coroutine \<open>bfs\<close> and the loop of \<open>numeric_gradient\<close> that drives it, as one loop over
  the queue: pop \<open>(n, in_grad)\<close>, \<open>derivatives[n] += in_grad\<close> (a \<open>defaultdict(int)\<close>), then
  append every child with its local gradient times \<open>in_grad\<close>. One unit of fuel per
  dequeued pair.
\<close>

fun numeric_loop :: "nat \<Rightarrow> heap \<Rightarrow> (key \<rightharpoonup> int) \<Rightarrow> (ref \<times> int) list \<Rightarrow> (key \<rightharpoonup> int)
    \<Rightarrow> (error + (key \<rightharpoonup> int)) option" where
  "numeric_loop k h vals [] d = Some (Inr d)"
| "numeric_loop 0 h vals (t # q) d = None"
| "numeric_loop (Suc k) h vals ((n, in_grad) # q) d =
     (let d' = d(key_of h n \<mapsto> (case d (key_of h n) of None \<Rightarrow> 0 | Some x \<Rightarrow> x) + in_grad) in
      case node_at h n of None \<Rightarrow> None
      | Some nd \<Rightarrow>
        (case compute_gradient h vals nd of None \<Rightarrow> None
         | Some (Inl e) \<Rightarrow> Some (Inl e)
         | Some (Inr local_grad) \<Rightarrow>
           (case children h nd of None \<Rightarrow> None
            | Some cs \<Rightarrow>
              numeric_loop k h vals (q @ zip cs (map (\<lambda>l. l * in_grad) local_grad)) d')))"

definition numeric_gradient :: "nat \<Rightarrow> heap \<Rightarrow> ref \<Rightarrow> (key \<rightharpoonup> int) \<Rightarrow> (error + (key \<rightharpoonup> int)) option" where
  "numeric_gradient k h f fargs =
     (case values k h f fargs of None \<Rightarrow> None
      | Some (Inl e) \<Rightarrow> Some (Inl e)
      | Some (Inr vals) \<Rightarrow> numeric_loop k h vals [(f, 1)] Map.empty)"

text \<open>Reading \<open>d[n]\<close> from the returned \<open>defaultdict(int)\<close>.\<close>

definition deriv :: "heap \<Rightarrow> (key \<rightharpoonup> int) \<Rightarrow> ref \<Rightarrow> int" where
  "deriv h d n = (case d (key_of h n) of None \<Rightarrow> 0 | Some x \<Rightarrow> x)"

section \<open>Symbolic gradient\<close>

text \<open>\<open>symbolic_gradient\<close> of each class: \<open>Add\<close> creates two \<open>Constant(1)\<close> objects, \<open>Mul\<close> returns
  its own children, swapped.\<close>

definition symbolic_local :: "heap \<Rightarrow> node \<Rightarrow> (heap \<times> ref list) option" where
  "symbolic_local h nd = (case nd of
      Symbol s \<Rightarrow> Some (h, [])
    | Constant c \<Rightarrow> Some (h, [])
    | Add c \<Rightarrow>
        (case new_Constant h 1 of (h1, l0) \<Rightarrow>
         case new_Constant h1 1 of (h2, l1) \<Rightarrow> Some (h2, [l0, l1]))
    | Mul c \<Rightarrow> (case kids_at h c of None \<Rightarrow> None | Some (a, b) \<Rightarrow> Some (h, [b, a])))"

text \<open>\<open>[l * in_grad for l in local_grad]\<close>, where \<open>*\<close> is \<open>Node.__mul__\<close>, that is \<open>sym_mul\<close>.\<close>

fun mul_all :: "heap \<Rightarrow> ref list \<Rightarrow> ref \<Rightarrow> heap \<times> ref list" where
  "mul_all h [] g = (h, [])"
| "mul_all h (l # ls) g =
     (case sym_mul h (N l) (N g) of (h1, m) \<Rightarrow>
      case mul_all h1 ls g of (h2, ms) \<Rightarrow> (h2, m # ms))"

text \<open>
  The loop of \<open>symbolic_gradient\<close> over the queue of \<open>bfs\<close>. \<open>derivatives\<close> is a
  \<open>defaultdict(lambda: Constant(0))\<close>: reading a missing key creates a \<open>Constant(0)\<close>.
  \<open>derivatives[n] + in_grad\<close> is \<open>Node.__add__\<close>, that is \<open>sym_add\<close>.
\<close>

fun symbolic_loop :: "nat \<Rightarrow> heap \<Rightarrow> (ref \<times> ref) list \<Rightarrow> (key \<rightharpoonup> ref)
    \<Rightarrow> (heap \<times> (key \<rightharpoonup> ref)) option" where
  "symbolic_loop k h [] d = Some (h, d)"
| "symbolic_loop 0 h (t # q) d = None"
| "symbolic_loop (Suc k) h ((n, in_grad) # q) d =
     (case (case d (key_of h n) of Some r \<Rightarrow> (h, r) | None \<Rightarrow> new_Constant h 0) of (h1, old) \<Rightarrow>
      case sym_add h1 (N old) (N in_grad) of (h2, s) \<Rightarrow>
      case node_at h2 n of None \<Rightarrow> None
      | Some nd \<Rightarrow>
        (case symbolic_local h2 nd of None \<Rightarrow> None
         | Some (h3, local_grad) \<Rightarrow>
           (case mul_all h3 local_grad in_grad of (h4, data) \<Rightarrow>
            case children h4 nd of None \<Rightarrow> None
            | Some cs \<Rightarrow> symbolic_loop k h4 (q @ zip cs data) (d(key_of h n \<mapsto> s)))))"

text \<open>\<open>gen = bfs(f, Constant(1))\<close>\<close>

definition symbolic_gradient :: "nat \<Rightarrow> heap \<Rightarrow> ref \<Rightarrow> (heap \<times> (key \<rightharpoonup> ref)) option" where
  "symbolic_gradient k h f =
     (case new_Constant h 1 of (h1, one) \<Rightarrow> symbolic_loop k h1 [(f, one)] Map.empty)"

section \<open>Simplifier\<close>

definition is_const :: "heap \<Rightarrow> ref \<Rightarrow> int option \<Rightarrow> bool" where
  "is_const h n val = (case node_at h n of
      Some (Constant c) \<Rightarrow> (case val of None \<Rightarrow> True | Some v \<Rightarrow> c = v)
    | _ \<Rightarrow> False)"

text \<open>A rule takes a node and returns a node; \<open>eval_to_const_rule\<close> may create one. The
  decorator \<open>applies_to\<close> returns the node itself when it is not of the given class.\<close>

type_synonym rule = "nat \<Rightarrow> heap \<Rightarrow> ref \<Rightarrow> (heap \<times> ref) option"

definition mul_identity_rule :: rule where
  "mul_identity_rule k h n = (case node_at h n of
      None \<Rightarrow> None
    | Some (Mul c) \<Rightarrow> (case kids_at h c of None \<Rightarrow> None
        | Some (a, b) \<Rightarrow>
            Some (h, if is_const h a (Some 1) then b
                     else if is_const h b (Some 1) then a else n))
    | Some nd \<Rightarrow> Some (h, n))"

definition add_identity_rule :: rule where
  "add_identity_rule k h n = (case node_at h n of
      None \<Rightarrow> None
    | Some (Add c) \<Rightarrow> (case kids_at h c of None \<Rightarrow> None
        | Some (a, b) \<Rightarrow>
            Some (h, if is_const h a (Some 0) then b
                     else if is_const h b (Some 0) then a else n))
    | Some nd \<Rightarrow> Some (h, n))"

text \<open>\<open>try: k = value(node, {}); return Constant(k)  except KeyError: return node\<close>\<close>

definition eval_to_const_rule :: rule where
  "eval_to_const_rule k h n = (case value_of k h n Map.empty of
      None \<Rightarrow> None
    | Some (Inl (KeyError x)) \<Rightarrow> Some (h, n)
    | Some (Inr v) \<Rightarrow> Some (new_Constant h v))"

text \<open>The list \<open>rules\<close> after the last \<open>rules.append\<close> of the notebook.\<close>

definition rules :: "rule list" where
  "rules = [mul_identity_rule, add_identity_rule, eval_to_const_rule]"

text \<open>\<open>for r in rules: nc = r(nc)\<close>\<close>

fun apply_rules :: "rule list \<Rightarrow> nat \<Rightarrow> heap \<Rightarrow> ref \<Rightarrow> (heap \<times> ref) option" where
  "apply_rules [] k h nc = Some (h, nc)"
| "apply_rules (r # rs) k h nc =
     (case r k h nc of None \<Rightarrow> None | Some (h', nc') \<Rightarrow> apply_rules rs k h' nc')"

text \<open>\<open>nodemap.get(c, c)\<close>\<close>

definition nodemap_get :: "heap \<Rightarrow> (key \<rightharpoonup> ref) \<Rightarrow> ref \<Rightarrow> ref" where
  "nodemap_get h nodemap c = (case nodemap (key_of h c) of None \<Rightarrow> c | Some r \<Rightarrow> r)"

text \<open>\<open>for i in range(len(nc.children)): c = nc.children[i]; nc.children[i] = nodemap.get(c, c)\<close>:
  both elements of the list object at address \<open>c\<close> are overwritten in place. (The key of a
  node does not depend on any children list, so the two writes are shown as one.)\<close>

definition relink :: "heap \<Rightarrow> (key \<rightharpoonup> ref) \<Rightarrow> cref \<Rightarrow> heap option" where
  "relink h nodemap c = (case kids_at h c of
      None \<Rightarrow> None
    | Some (a, b) \<Rightarrow>
        Some (h\<lparr>kids := (kids h)[c := (nodemap_get h nodemap a, nodemap_get h nodemap b)]\<rparr>))"

text \<open>
  The body of the loop of \<open>simplify\<close> for the node \<open>n\<close> that the generator has just yielded.
  \<open>copy.copy(n)\<close> is a shallow copy: a new object with the attribute values of \<open>n\<close>, so with
  the same children list object.
\<close>

definition simplify_body :: "nat \<Rightarrow> heap \<Rightarrow> (key \<rightharpoonup> ref) \<Rightarrow> ref \<Rightarrow> (heap \<times> (key \<rightharpoonup> ref)) option" where
  "simplify_body k h nodemap n = (case node_at h n of
      None \<Rightarrow> None
    | Some (Symbol s) \<Rightarrow> Some (h, nodemap)
    | Some nd \<Rightarrow>
        (case alloc h nd of (h1, nc) \<Rightarrow>
         case (case nd of Add c \<Rightarrow> relink h1 nodemap c | Mul c \<Rightarrow> relink h1 nodemap c
               | _ \<Rightarrow> Some h1) of
           None \<Rightarrow> None
         | Some h2 \<Rightarrow>
             (case apply_rules rules k h2 nc of None \<Rightarrow> None
              | Some (h3, r) \<Rightarrow> Some (h3, nodemap(key_of h n \<mapsto> r)))))"

text \<open>
  The loop \<open>for n in postorder(node)\<close> of \<open>simplify\<close>. The generator is lazy and the loop body
  writes to children lists, so the traversal and the body are interleaved as in the
  source: the generator reads \<open>node.children[1]\<close> only after the subtree of
  \<open>node.children[0]\<close> has been yielded and processed.
\<close>

fun simplify_walk :: "nat \<Rightarrow> ref \<Rightarrow> heap \<times> (key \<rightharpoonup> ref) \<Rightarrow> (heap \<times> (key \<rightharpoonup> ref)) option"
  and simplify_kids :: "nat \<Rightarrow> ref \<Rightarrow> cref \<Rightarrow> heap \<times> (key \<rightharpoonup> ref) \<Rightarrow> (heap \<times> (key \<rightharpoonup> ref)) option" where
  "simplify_walk 0 n s = None"
| "simplify_walk (Suc k) n (h, nodemap) =
     (case node_at h n of
        None \<Rightarrow> None
      | Some (Add c) \<Rightarrow> simplify_kids k n c (h, nodemap)
      | Some (Mul c) \<Rightarrow> simplify_kids k n c (h, nodemap)
      | Some nd \<Rightarrow> simplify_body (Suc k) h nodemap n)"
| "simplify_kids k n c (h, nodemap) =
     (case kids_at h c of None \<Rightarrow> None
      | Some (a, b0) \<Rightarrow>
        (case simplify_walk k a (h, nodemap) of None \<Rightarrow> None
         | Some (h1, nodemap1) \<Rightarrow>
           (case kids_at h1 c of None \<Rightarrow> None
            | Some (a1, b) \<Rightarrow>
              (case simplify_walk k b (h1, nodemap1) of None \<Rightarrow> None
               | Some (h2, nodemap2) \<Rightarrow> simplify_body (Suc k) h2 nodemap2 n))))"

text \<open>\<open>nodemap = {}\<close>, the loop, \<open>return nodemap[node]\<close>\<close>

definition simplify :: "nat \<Rightarrow> heap \<Rightarrow> ref \<Rightarrow> (heap \<times> (error + ref)) option" where
  "simplify k h node =
     (case simplify_walk k node (h, Map.empty) of None \<Rightarrow> None
      | Some (h', nodemap) \<Rightarrow> Some (h', lookup nodemap (key_of h' node)))"

subsection \<open>Rendering\<close>

fun digits :: "nat \<Rightarrow> string" where
  "digits n = (if n < 10 then [''0123456789'' ! n]
     else digits (n div 10) @ [''0123456789'' ! (n mod 10)])"

definition str_int :: "int \<Rightarrow> string" where
  "str_int i = (if i < 0 then CHR ''-'' # digits (nat (- i)) else digits (nat i))"

text \<open>\<open>__str__\<close> of each class.\<close>

fun str :: "nat \<Rightarrow> heap \<Rightarrow> ref \<Rightarrow> string option" where
  "str 0 h n = None"
| "str (Suc k) h n = (case node_at h n of
      None \<Rightarrow> None
    | Some (Symbol s) \<Rightarrow> Some s
    | Some (Constant v) \<Rightarrow> Some (str_int v)
    | Some (Add c) \<Rightarrow> (case kids_at h c of None \<Rightarrow> None
        | Some (a, b) \<Rightarrow> (case str k h a of None \<Rightarrow> None
            | Some x \<Rightarrow> (case str k h b of None \<Rightarrow> None
                | Some y \<Rightarrow> Some (''('' @ x @ ''+'' @ y @ '')''))))
    | Some (Mul c) \<Rightarrow> (case kids_at h c of None \<Rightarrow> None
        | Some (a, b) \<Rightarrow> (case str k h a of None \<Rightarrow> None
            | Some x \<Rightarrow> (case str k h b of None \<Rightarrow> None
                | Some y \<Rightarrow> Some (''('' @ x @ ''*'' @ y @ '')'')))))"

section \<open>Example graphs\<close>

text \<open>The toy function \<open>f = (x + y) * x\<close> of the notebook, built from an empty heap:
  the heap and the addresses of \<open>x\<close>, \<open>y\<close>, \<open>x + y\<close> and \<open>f\<close>.\<close>

definition toy :: "heap \<times> ref \<times> ref \<times> ref \<times> ref" where
  "toy =
     (case new_Symbol empty_heap ''x'' of (h1, x) \<Rightarrow>
      case new_Symbol h1 ''y'' of (h2, y) \<Rightarrow>
      case sym_add h2 (N x) (N y) of (h3, a) \<Rightarrow>
      case sym_mul h3 (N a) (N x) of (h4, f) \<Rightarrow> (h4, x, y, a, f))"

text \<open>The bindings \<open>{x: 2, y: 3}\<close>.\<close>

definition xy23 :: "key \<rightharpoonup> int" where
  "xy23 = [KSym ''x'' \<mapsto> 2, KSym ''y'' \<mapsto> 3]"

text \<open>\<open>e = (x * 1) + y\<close>: the heap and the addresses of \<open>x\<close>, \<open>y\<close>, \<open>x * 1\<close> and \<open>e\<close>.\<close>

definition x1_plus_y :: "heap \<times> ref \<times> ref \<times> ref \<times> ref" where
  "x1_plus_y =
     (case new_Symbol empty_heap ''x'' of (h1, x) \<Rightarrow>
      case new_Symbol h1 ''y'' of (h2, y) \<Rightarrow>
      case sym_mul h2 (N x) (Num 1) of (h3, m) \<Rightarrow>
      case sym_add h3 (N m) (N y) of (h4, e) \<Rightarrow> (h4, x, y, m, e))"

text \<open>\<open>e = x * 1\<close>: the heap and the addresses of \<open>x\<close> and \<open>e\<close>.\<close>

definition x_times_1 :: "heap \<times> ref \<times> ref" where
  "x_times_1 =
     (case new_Symbol empty_heap ''x'' of (h1, x) \<Rightarrow>
      case sym_mul h1 (N x) (Num 1) of (h2, e) \<Rightarrow> (h2, x, e))"


text \<open>The nested sum of five \<open>Constant(1)\<close> nodes: the heap and the address of the root.\<close>

definition five_ones :: "heap \<times> ref" where
  "five_ones =
     (case sym_add empty_heap (Num 1) (Num 1) of (h1, a) \<Rightarrow>
      case sym_add h1 (N a) (Num 1) of (h2, b) \<Rightarrow>
      case sym_add h2 (N b) (Num 1) of (h3, c) \<Rightarrow> sym_add h3 (N c) (Num 1))"

section \<open>Traversal order\<close>

text \<open>Every node of the list has all its children earlier in the list, or in \<open>S\<close>.\<close>

fun kids_done :: "heap \<Rightarrow> ref set \<Rightarrow> ref list \<Rightarrow> bool" where
  "kids_done h S [] = True"
| "kids_done h S (n # ns) =
     ((case kids_of h n of None \<Rightarrow> False | Some cs \<Rightarrow> set cs \<subseteq> S) \<and> kids_done h (insert n S) ns)"

text \<open>What the loop of \<open>values\<close> returns on a list in which children come first: it never
  gets stuck, an error is the \<open>KeyError\<close> of a \<open>Symbol\<close> of the list that has no binding, and a
  result holds every node of the list and no new \<open>Symbol\<close>.\<close>

definition loop_ok :: "heap \<Rightarrow> ref set \<Rightarrow> ref list \<Rightarrow> (key \<rightharpoonup> int) \<Rightarrow> (error + (key \<rightharpoonup> int)) option \<Rightarrow> bool" where
  "loop_ok h S ns v res = (case res of
       None \<Rightarrow> False
     | Some (Inl e) \<Rightarrow> \<exists>s m. e = KeyError (KSym s) \<and> m \<in> set ns \<and> node_at h m = Some (Symbol s) \<and> v (KSym s) = None
     | Some (Inr v') \<Rightarrow> (\<forall>m\<in>S \<union> set ns. v' (key_of h m) \<noteq> None) \<and> (\<forall>s. v' (KSym s) = v (KSym s))
          \<and> (\<forall>x. v x \<noteq> None \<longrightarrow> v' x = v x))"

section \<open>Denotation of a node\<close>

text \<open>
  The number a node stands for under bindings \<open>B\<close>, as a relation on the heap, with a bound
  \<open>d\<close> on the number of nodes of the expression tree below the node. Only a finite,
  well-formed graph all of whose \<open>Symbol\<close>s are bound has a denotation.
\<close>

inductive den :: "heap \<Rightarrow> (key \<rightharpoonup> int) \<Rightarrow> ref \<Rightarrow> int \<Rightarrow> nat \<Rightarrow> bool" for h B where
  den_Symbol: "node_at h n = Some (Symbol s) \<Longrightarrow> B (KSym s) = Some v \<Longrightarrow> den h B n v (Suc d)"
| den_Constant: "node_at h n = Some (Constant c) \<Longrightarrow> den h B n c (Suc d)"
| den_Add: "node_at h n = Some (Add c) \<Longrightarrow> kids_at h c = Some (a, b) \<Longrightarrow>
     den h B a va da \<Longrightarrow> den h B b vb db \<Longrightarrow> da + db < d \<Longrightarrow> den h B n (va + vb) d"
| den_Mul: "node_at h n = Some (Mul c) \<Longrightarrow> kids_at h c = Some (a, b) \<Longrightarrow>
     den h B a va da \<Longrightarrow> den h B b vb db \<Longrightarrow> da + db < d \<Longrightarrow> den h B n (va * vb) d"

text \<open>A value dictionary that agrees with the bindings on \<open>Symbol\<close>s and holds denotations
  for all other nodes.\<close>

definition vals_ok :: "heap \<Rightarrow> (key \<rightharpoonup> int) \<Rightarrow> (key \<rightharpoonup> int) \<Rightarrow> bool" where
  "vals_ok h B v = ((\<forall>s. v (KSym s) = B (KSym s)) \<and> (\<forall>m w. v (KObj m) = Some w \<longrightarrow> (\<exists>d. den h B m w d)))"

section \<open>Heaps during simplification\<close>

text \<open>\<open>pres h h'\<close>: every node object of \<open>h\<close> is the same object in \<open>h'\<close>, and every node that
  has a denotation without bindings in \<open>h\<close> has the same one in \<open>h'\<close>.\<close>

definition pres :: "heap \<Rightarrow> heap \<Rightarrow> bool" where
  "pres h h' = ((\<forall>n nd. node_at h n = Some nd \<longrightarrow> node_at h' n = Some nd) \<and>
                (\<forall>m v d. den h Map.empty m v d \<longrightarrow> den h' Map.empty m v d))"

text \<open>A \<open>nodemap\<close> whose entries are \<open>Constant\<close>s holding the denotation of their key.\<close>

definition nm_ok :: "heap \<Rightarrow> (key \<rightharpoonup> ref) \<Rightarrow> bool" where
  "nm_ok h nm = (\<forall>m r. nm (KObj m) = Some r \<longrightarrow>
     (\<exists>cv d. node_at h r = Some (Constant cv) \<and> den h Map.empty m cv d))"

section \<open>Heaps during symbolic differentiation\<close>

text \<open>\<open>ext h h'\<close>: \<open>h'\<close> has every node object and every children list of \<open>h\<close>, unchanged.\<close>

definition ext :: "heap \<Rightarrow> heap \<Rightarrow> bool" where
  "ext h h' = ((\<forall>n x. node_at h n = Some x \<longrightarrow> node_at h' n = Some x) \<and>
               (\<forall>c p. kids_at h c = Some p \<longrightarrow> kids_at h' c = Some p))"

text \<open>A numeric and a symbolic derivative dictionary with the same keys, every symbolic
  entry denoting the numeric one.\<close>

definition drel :: "heap \<Rightarrow> (key \<rightharpoonup> int) \<Rightarrow> (key \<rightharpoonup> int) \<Rightarrow> (key \<rightharpoonup> ref) \<Rightarrow> bool" where
  "drel h B dn ds = (\<forall>x. rel_option (\<lambda>g r. \<exists>d. den h B r g d) (dn x) (ds x))"

text \<open>A queue entry whose node \<open>postorder\<close> traverses, inside the set \<open>R\<close>; and a numeric queue
  entry matched by a symbolic one that denotes it.\<close>

definition q_po :: "heap \<Rightarrow> ref set \<Rightarrow> ref \<times> int \<Rightarrow> ref list \<Rightarrow> bool" where
  "q_po h R p ns = (\<exists>j. postorder j h (fst p) = Some ns \<and> set ns \<subseteq> R)"

definition q_den :: "heap \<Rightarrow> (key \<rightharpoonup> int) \<Rightarrow> ref \<times> int \<Rightarrow> ref \<times> ref \<Rightarrow> bool" where
  "q_den h B p ps = (fst ps = fst p \<and> (\<exists>d. den h B (snd ps) (snd p) d))"

section \<open>Dictionaries as objects\<close>

text \<open>
  For the effect of the evaluator and of the numeric gradient on the dictionary the caller
  passes in, the dictionaries are objects in a store, addressed by their index; a function
  that takes or returns a dictionary takes or returns its address. \<open>values_st\<close> and
  \<open>numeric_gradient_st\<close> are \<open>values\<close> and \<open>numeric_gradient\<close> statement by statement, every
  dictionary operation acting on the store.
\<close>

type_synonym dref = nat
type_synonym dstore = "(key \<rightharpoonup> int) list"

definition dict_at :: "dstore \<Rightarrow> dref \<Rightarrow> (key \<rightharpoonup> int) option" where
  "dict_at \<sigma> d = (if d < length \<sigma> then Some (\<sigma> ! d) else None)"

text \<open>\<open>{}\<close> (and \<open>defaultdict(int)\<close>): a new, empty dictionary object.\<close>

definition dict_new :: "dstore \<Rightarrow> dstore \<times> dref" where
  "dict_new \<sigma> = (\<sigma> @ [Map.empty], length \<sigma>)"

text \<open>\<open>v.update(fargs)\<close> writes to \<open>v\<close> and reads \<open>fargs\<close>.\<close>

definition dict_update :: "dstore \<Rightarrow> dref \<Rightarrow> dref \<Rightarrow> dstore option" where
  "dict_update \<sigma> v fargs = (case dict_at \<sigma> v of None \<Rightarrow> None
     | Some dv \<Rightarrow> (case dict_at \<sigma> fargs of None \<Rightarrow> None
         | Some df \<Rightarrow> Some (\<sigma>[v := dv ++ df])))"

text \<open>\<open>v[k] = x\<close>\<close>

definition dict_set :: "dstore \<Rightarrow> dref \<Rightarrow> key \<Rightarrow> int \<Rightarrow> dstore" where
  "dict_set \<sigma> v k x = \<sigma>[v := (\<sigma> ! v)(k \<mapsto> x)]"

fun values_st_loop :: "heap \<Rightarrow> dstore \<Rightarrow> dref \<Rightarrow> ref list \<Rightarrow> (dstore \<times> (error + unit)) option" where
  "values_st_loop h \<sigma> v [] = Some (\<sigma>, Inr ())"
| "values_st_loop h \<sigma> v (n # ns) =
     (case dict_at \<sigma> v of None \<Rightarrow> None
      | Some dv \<Rightarrow>
        (case dv (key_of h n) of
           Some x \<Rightarrow> values_st_loop h \<sigma> v ns
         | None \<Rightarrow>
           (case node_at h n of None \<Rightarrow> None
            | Some nd \<Rightarrow>
              (case compute_value h dv nd of None \<Rightarrow> None
               | Some (Inl e) \<Rightarrow> Some (\<sigma>, Inl e)
               | Some (Inr x) \<Rightarrow> values_st_loop h (dict_set \<sigma> v (key_of h n) x) v ns))))"

definition values_st :: "nat \<Rightarrow> heap \<Rightarrow> dstore \<Rightarrow> ref \<Rightarrow> dref \<Rightarrow> (dstore \<times> (error + dref)) option" where
  "values_st k h \<sigma> f fargs =
     (case postorder k h f of None \<Rightarrow> None
      | Some ns \<Rightarrow>
        (case dict_new \<sigma> of (\<sigma>1, v) \<Rightarrow>
         case dict_update \<sigma>1 v fargs of None \<Rightarrow> None
         | Some \<sigma>2 \<Rightarrow>
           (case values_st_loop h \<sigma>2 v ns of None \<Rightarrow> None
            | Some (\<sigma>3, Inl e) \<Rightarrow> Some (\<sigma>3, Inl e)
            | Some (\<sigma>3, Inr u) \<Rightarrow> Some (\<sigma>3, Inr v))))"

fun numeric_st_loop :: "nat \<Rightarrow> heap \<Rightarrow> dstore \<Rightarrow> dref \<Rightarrow> dref \<Rightarrow> (ref \<times> int) list
    \<Rightarrow> (dstore \<times> (error + unit)) option" where
  "numeric_st_loop k h \<sigma> vals d [] = Some (\<sigma>, Inr ())"
| "numeric_st_loop 0 h \<sigma> vals d (t # q) = None"
| "numeric_st_loop (Suc k) h \<sigma> vals d ((n, in_grad) # q) =
     (case dict_at \<sigma> d of None \<Rightarrow> None
      | Some dd \<Rightarrow>
        (let \<sigma>1 = dict_set \<sigma> d (key_of h n)
                     ((case dd (key_of h n) of None \<Rightarrow> 0 | Some x \<Rightarrow> x) + in_grad) in
         case node_at h n of None \<Rightarrow> None
         | Some nd \<Rightarrow>
           (case dict_at \<sigma>1 vals of None \<Rightarrow> None
            | Some dv \<Rightarrow>
              (case compute_gradient h dv nd of None \<Rightarrow> None
               | Some (Inl e) \<Rightarrow> Some (\<sigma>1, Inl e)
               | Some (Inr local_grad) \<Rightarrow>
                 (case children h nd of None \<Rightarrow> None
                  | Some cs \<Rightarrow>
                    numeric_st_loop k h \<sigma>1 vals d
                      (q @ zip cs (map (\<lambda>l. l * in_grad) local_grad)))))))"

definition numeric_gradient_st :: "nat \<Rightarrow> heap \<Rightarrow> dstore \<Rightarrow> ref \<Rightarrow> dref
    \<Rightarrow> (dstore \<times> (error + dref)) option" where
  "numeric_gradient_st k h \<sigma> f fargs =
     (case values_st k h \<sigma> f fargs of None \<Rightarrow> None
      | Some (\<sigma>1, Inl e) \<Rightarrow> Some (\<sigma>1, Inl e)
      | Some (\<sigma>1, Inr vals) \<Rightarrow>
        (case dict_new \<sigma>1 of (\<sigma>2, d) \<Rightarrow>
         case numeric_st_loop k h \<sigma>2 vals d [(f, 1)] of None \<Rightarrow> None
         | Some (\<sigma>3, Inl e) \<Rightarrow> Some (\<sigma>3, Inl e)
         | Some (\<sigma>3, Inr u) \<Rightarrow> Some (\<sigma>3, Inr d)))"

text \<open>A run on the store against a run on dictionary values: the store run writes to the
  dictionary at \<open>v\<close> only, and returns what the other run returns.\<close>

definition st_match :: "dstore \<Rightarrow> dref \<Rightarrow> (dstore \<times> (error + unit)) option
    \<Rightarrow> (error + (key \<rightharpoonup> int)) option \<Rightarrow> bool" where
  "st_match \<sigma> v st pure = (case st of
       None \<Rightarrow> pure = None
     | Some (\<sigma>', r) \<Rightarrow> length \<sigma>' = length \<sigma> \<and> (\<forall>x. x \<noteq> v \<longrightarrow> \<sigma>' ! x = \<sigma> ! x) \<and>
         (case r of Inl e \<Rightarrow> pure = Some (Inl e) | Inr u \<Rightarrow> pure = Some (Inr (\<sigma>' ! v))))"


section \<open>Properties\<close>

lemmas model_defs =
  new_Symbol_def new_Constant_def new_Add_def new_Mul_def alloc_def sym_add_def sym_mul_def
  wrap_arg_def empty_heap_def value_of_def values_def node_at_def kids_at_def children_def
  key_of_def lookup_def compute_value_def compute_gradient_def numeric_gradient_def deriv_def
  kids_of_def simplify_def simplify_body_def relink_def nodemap_get_def rules_def
  mul_identity_rule_def add_identity_rule_def eval_to_const_rule_def is_const_def str_int_def

subsection \<open>The toy function\<close>

text \<open>
  C1. For \<open>f = (x + y) * x\<close> and the bindings \<open>{x: 2, y: 3}\<close>, \<open>value\<close> returns 10 and
  \<open>numeric_gradient\<close> maps \<open>x\<close> to 7 and \<open>y\<close> to 2, with any fuel of at least 6. The entry of
  \<open>x\<close> is the sum over the two edges that reach \<open>x\<close>: the value of \<open>x + y\<close> times the
  derivative of \<open>f\<close>, plus 1 times the derivative of \<open>x + y\<close>.
\<close>

theorem toy_value_and_gradient:
  "case toy of (h, x, y, a, f) \<Rightarrow>
     value_of (k + 6) h f xy23 = Some (Inr 10) \<and>
     (case numeric_gradient (k + 6) h f xy23 of
        Some (Inr d) \<Rightarrow>
          deriv h d x = 7 \<and> deriv h d y = 2 \<and>
          value_of (k + 6) h a xy23 = Some (Inr 5) \<and>
          deriv h d x = 5 * deriv h d f + 1 * deriv h d a
      | _ \<Rightarrow> False)"
  by (simp add: toy_def xy23_def model_defs eval_nat_numeral)

subsection \<open>The simplifier writes to its input\<close>

text \<open>
  C3. The claim is that \<open>simplify\<close> leaves every node of its input with the children it had.
  For \<open>e = (x * 1) + y\<close> the code does not: before the call the children of \<open>e\<close> are the
  product node and \<open>y\<close>, and \<open>e\<close> is rendered \<open>((x*1)+y)\<close>; after the call the children of the
  same object \<open>e\<close> are \<open>x\<close> and \<open>y\<close>, and it is rendered \<open>(x+y)\<close>. The shallow copy shares
  the children list with the original, and the loop writes into that list.
\<close>

theorem simplify_mutates_input:
  "case x1_plus_y of (h, x, y, m, e) \<Rightarrow>
     kids_of h e = Some [m, y] \<and> str (k + 3) h e = Some ''((x*1)+y)'' \<and>
     (case simplify (k + 3) h e of
        Some (h', Inr r) \<Rightarrow>
          kids_of h' e = Some [x, y] \<and> str (k + 3) h' e = Some ''(x+y)'' \<and> m \<noteq> x
      | _ \<Rightarrow> False)"
proof -
  have fuel: "k + 3 = Suc (Suc (Suc k))" by simp
  show ?thesis unfolding fuel by (simp add: x1_plus_y_def model_defs)
qed

subsection \<open>A Symbol as root\<close>

text \<open>
  C5. The claim is that \<open>simplify\<close> never fails and returns a \<open>Symbol\<close> unchanged. On the root
  \<open>Symbol('x')\<close> the loop skips the only node, \<open>nodemap\<close> stays empty, and
  \<open>return nodemap[node]\<close> raises \<open>KeyError\<close>.
\<close>

theorem simplify_symbol_root_fails:
  "case new_Symbol empty_heap ''x'' of (h, x) \<Rightarrow>
     simplify (k + 1) h x = Some (h, Inl (KeyError (KSym ''x'')))"
  by (simp add: model_defs)

text \<open>
  C6. The claim is that \<open>simplify (simplify e)\<close> is structurally equal to \<open>simplify e\<close>. For
  \<open>e = x * 1\<close> the first call returns the node \<open>x\<close>, and the second call, on that \<open>Symbol\<close>,
  raises \<open>KeyError\<close>.
\<close>

theorem simplify_twice_fails:
  "case x_times_1 of (h, x, e) \<Rightarrow>
     (case simplify (k + 2) h e of
        Some (h', Inr r) \<Rightarrow>
          r = x \<and> simplify (k + 2) h' r = Some (h', Inl (KeyError (KSym ''x'')))
      | _ \<Rightarrow> False)"
proof -
  have fuel: "k + 2 = Suc (Suc k)" by simp
  show ?thesis unfolding fuel by (simp add: x_times_1_def model_defs)
qed

subsection \<open>Order of the rules\<close>



subsection \<open>Missing bindings\<close>

lemma postorder_Suc:
  "postorder (Suc k) h n =
     (case node_at h n of
        None \<Rightarrow> None
      | Some nd \<Rightarrow>
        (case children h nd of
           None \<Rightarrow> None
         | Some [] \<Rightarrow> Some [n]
         | Some [a, b] \<Rightarrow>
             (case postorder k h a of None \<Rightarrow> None
              | Some xs \<Rightarrow>
                (case postorder k h b of None \<Rightarrow> None
                 | Some ys \<Rightarrow> Some (xs @ ys @ [n])))
         | Some cs \<Rightarrow> postorder (Suc k) h n))"
  by (auto simp: children_def split: option.splits node.splits list.splits)

lemma children_cases:
  "children h nd = Some cs \<Longrightarrow> cs = [] \<or> (\<exists>a b. cs = [a, b])"
  by (auto simp: children_def split: node.splits)

lemma kids_done_mono: "kids_done h S ns \<Longrightarrow> S \<subseteq> T \<Longrightarrow> kids_done h T ns"
proof (induction ns arbitrary: S T)
  case Nil
  then show ?case by simp
next
  case (Cons n ns)
  from Cons.prems have "kids_done h (insert n S) ns" by simp
  then have "kids_done h (insert n T) ns"
    using Cons.IH Cons.prems(2) by (meson insert_mono)
  with Cons.prems show ?case by (auto split: option.splits)
qed

lemma kids_done_append:
  "kids_done h S (xs @ ys) = (kids_done h S xs \<and> kids_done h (S \<union> set xs) ys)"
  by (induction xs arbitrary: S) (auto simp: Un_commute insert_commute)

lemma postorder_last: "postorder k h n = Some ns \<Longrightarrow> n \<in> set ns"
  by (cases k) (auto simp: postorder_Suc split: option.splits list.splits dest: children_cases)

lemma postorder_kids_done: "postorder k h n = Some ns \<Longrightarrow> kids_done h S ns"
proof (induction k arbitrary: n ns S)
  case 0
  then show ?case by simp
next
  case (Suc k)
  from Suc.prems obtain nd cs where nd: "node_at h n = Some nd" and cs: "children h nd = Some cs"
    by (auto split: option.splits)
  from children_cases[OF cs] show ?case
  proof
    assume "cs = []"
    with Suc.prems nd cs show ?thesis by (auto simp: postorder_Suc kids_of_def)
  next
    assume "\<exists>a b. cs = [a, b]"
    then obtain a b where ab: "cs = [a, b]" by blast
    with Suc.prems nd cs obtain xs ys where xs: "postorder k h a = Some xs"
      and ys: "postorder k h b = Some ys" and ns: "ns = xs @ ys @ [n]"
      by (auto simp: postorder_Suc split: option.splits)
    have "kids_done h S xs" using Suc.IH[OF xs] .
    moreover have "kids_done h (S \<union> set xs) ys" using Suc.IH[OF ys] .
    moreover have "a \<in> set xs" "b \<in> set ys" using postorder_last xs ys by auto
    ultimately show ?thesis using nd cs ab ns
      by (simp add: kids_done_append kids_of_def)
  qed
qed



lemma loop_ok_skip:
  "loop_ok h (insert n S) ns v res \<Longrightarrow> loop_ok h S (n # ns) v res"
  by (auto simp: loop_ok_def split: option.splits sum.splits)

lemma loop_ok_store:
  assumes "loop_ok h (insert n S) ns (v(KObj n \<mapsto> x)) res" "v (KObj n) = None"
  shows "loop_ok h S (n # ns) v res"
  using assms
  apply (simp add: loop_ok_def split: option.splits sum.splits)
  apply (metis)
  done

lemma key_of_cases:
  "node_at h n = Some nd \<Longrightarrow> key_of h n = (case nd of Symbol s \<Rightarrow> KSym s | _ \<Rightarrow> KObj n)"
  by (simp add: key_of_def split: node.splits)

lemma values_loop_result:
  "kids_done h S ns \<Longrightarrow> \<forall>m\<in>S. v (key_of h m) \<noteq> None \<Longrightarrow> loop_ok h S ns v (values_loop h v ns)"
proof (induction ns arbitrary: S v)
  case Nil
  then show ?case by (simp add: loop_ok_def)
next
  case (Cons n ns)
  from Cons.prems(1) obtain cs where cs: "kids_of h n = Some cs" "set cs \<subseteq> S"
    and rest: "kids_done h (insert n S) ns"
    by (auto split: option.splits)
  from cs(1) obtain nd where nd: "node_at h n = Some nd" and ch: "children h nd = Some cs"
    by (auto simp: kids_of_def split: option.splits)
  show ?case
  proof (cases "v (key_of h n)")
    case (Some x)
    then have "\<forall>m\<in>insert n S. v (key_of h m) \<noteq> None" using Cons.prems(2) by auto
    from Cons.IH[OF rest this] show ?thesis using Some by (simp add: loop_ok_skip)
  next
    case None
    show ?thesis
    proof (cases nd)
      case (Symbol s)
      then show ?thesis using None nd
        by (auto simp: loop_ok_def key_of_cases compute_value_def lookup_def)
    next
      case (Constant c)
      then have k: "key_of h n = KObj n" using nd by (simp add: key_of_cases)
      have "\<forall>m\<in>insert n S. (v(KObj n \<mapsto> c)) (key_of h m) \<noteq> None"
        using Cons.prems(2) k by auto
      note step = Cons.IH[of "insert n S" "v(KObj n \<mapsto> c)", OF rest this]
      have vn: "v (KObj n) = None" using None k by simp
      have "loop_ok h S (n # ns) v (values_loop h (v(KObj n \<mapsto> c)) ns)"
        by (rule loop_ok_store[OF step vn])
      then show ?thesis using None nd Constant k
        by (simp add: compute_value_def)
    next
      case (Add c)
      then have k: "key_of h n = KObj n" using nd by (simp add: key_of_cases)
      from ch Add obtain a b where ab: "kids_at h c = Some (a, b)" "cs = [a, b]"
        by (auto simp: children_def)
      with cs(2) have "a \<in> S" "b \<in> S" by auto
      with Cons.prems(2) obtain x y where xy: "v (key_of h a) = Some x" "v (key_of h b) = Some y"
        by fastforce
      have "\<forall>m\<in>insert n S. (v(KObj n \<mapsto> x + y)) (key_of h m) \<noteq> None"
        using Cons.prems(2) k by auto
      note step = Cons.IH[of "insert n S" "v(KObj n \<mapsto> x + y)", OF rest this]
      have vn: "v (KObj n) = None" using None k by simp
      have "loop_ok h S (n # ns) v (values_loop h (v(KObj n \<mapsto> x + y)) ns)"
        by (rule loop_ok_store[OF step vn])
      then show ?thesis using None nd Add k ab xy
        by (simp add: compute_value_def lookup_def)
    next
      case (Mul c)
      then have k: "key_of h n = KObj n" using nd by (simp add: key_of_cases)
      from ch Mul obtain a b where ab: "kids_at h c = Some (a, b)" "cs = [a, b]"
        by (auto simp: children_def)
      with cs(2) have "a \<in> S" "b \<in> S" by auto
      with Cons.prems(2) obtain x y where xy: "v (key_of h a) = Some x" "v (key_of h b) = Some y"
        by fastforce
      have "\<forall>m\<in>insert n S. (v(KObj n \<mapsto> x * y)) (key_of h m) \<noteq> None"
        using Cons.prems(2) k by auto
      note step = Cons.IH[of "insert n S" "v(KObj n \<mapsto> x * y)", OF rest this]
      have vn: "v (KObj n) = None" using None k by simp
      have "loop_ok h S (n # ns) v (values_loop h (v(KObj n \<mapsto> x * y)) ns)"
        by (rule loop_ok_store[OF step vn])
      then show ?thesis using None nd Mul k ab xy
        by (simp add: compute_value_def lookup_def)
    qed
  qed
qed


lemma values_result:
  assumes "postorder k h root = Some ns"
  shows "loop_ok h {} ns B (values k h root B)"
  using values_loop_result[OF postorder_kids_done[OF assms], of "{}" B] assms
  by (simp add: values_def)

lemma value_of_error:
  assumes "postorder k h root = Some ns" "value_of k h root B = Some (Inl (KeyError x))"
  shows "\<exists>s. x = KSym s \<and> B (KSym s) = None \<and> (\<exists>n\<in>set ns. node_at h n = Some (Symbol s))"
proof -
  note ok = values_result[OF assms(1), of B]
  have root: "root \<in> set ns" using assms(1) by (rule postorder_last)
  show ?thesis
  proof (cases "values k h root B")
    case None
    with ok show ?thesis by (simp add: loop_ok_def)
  next
    case (Some r)
    show ?thesis
    proof (cases r)
      case (Inl e)
      with Some assms(2) have "e = KeyError x" by (simp add: value_of_def)
      with ok Some Inl show ?thesis by (auto simp: loop_ok_def)
    next
      case (Inr v)
      with ok Some root have "v (key_of h root) \<noteq> None" by (auto simp: loop_ok_def)
      with Some Inr assms(2) show ?thesis by (auto simp: value_of_def lookup_def)
    qed
  qed
qed

lemma value_of_success:
  assumes "postorder k h root = Some ns"
    and bound: "\<forall>n\<in>set ns. \<forall>s. node_at h n = Some (Symbol s) \<longrightarrow> B (KSym s) \<noteq> None"
  shows "\<exists>v. value_of k h root B = Some (Inr v)"
proof -
  note ok = values_result[OF assms(1), of B]
  have root: "root \<in> set ns" using assms(1) by (rule postorder_last)
  show ?thesis
  proof (cases "values k h root B")
    case None
    with ok show ?thesis by (simp add: loop_ok_def)
  next
    case (Some r)
    show ?thesis
    proof (cases r)
      case (Inl e)
      with ok Some bound show ?thesis by (auto simp: loop_ok_def)
    next
      case (Inr v)
      with ok Some root have "v (key_of h root) \<noteq> None" by (auto simp: loop_ok_def)
      with Some Inr show ?thesis by (auto simp: value_of_def lookup_def)
    qed
  qed
qed

lemma value_of_failure:
  assumes "postorder k h root = Some ns"
    and unbound: "\<exists>n\<in>set ns. \<exists>s. node_at h n = Some (Symbol s) \<and> B (KSym s) = None"
  shows "\<exists>x. value_of k h root B = Some (Inl (KeyError x))"
proof -
  note ok = values_result[OF assms(1), of B]
  show ?thesis
  proof (cases "values k h root B")
    case None
    with ok show ?thesis by (simp add: loop_ok_def)
  next
    case (Some r)
    show ?thesis
    proof (cases r)
      case (Inl e)
      with Some show ?thesis by (cases e) (simp add: value_of_def)
    next
      case (Inr v)
      from unbound obtain n s where n: "n \<in> set ns" "node_at h n = Some (Symbol s)" "B (KSym s) = None"
        by blast
      from ok Some Inr n(1) have "v (key_of h n) \<noteq> None" "v (KSym s) = B (KSym s)"
        by (auto simp: loop_ok_def)
      with n show ?thesis by (simp add: key_of_cases)
    qed
  qed
qed

text \<open>
  C4. Let \<open>ns\<close> be the nodes that \<open>postorder\<close> yields from \<open>root\<close>, that is the nodes reachable
  from \<open>root\<close>. Then \<open>value\<close> fails if and only if some \<open>Symbol\<close> among them has no entry in
  the bindings; the error is the \<open>KeyError\<close> of such a \<open>Symbol\<close>; and when every reachable
  \<open>Symbol\<close> is bound, \<open>value\<close> returns a number.
\<close>

theorem evaluate_missing_binding:
  assumes "postorder k h root = Some ns"
  shows "((\<exists>x. value_of k h root B = Some (Inl (KeyError x))) \<longleftrightarrow>
            (\<exists>n\<in>set ns. \<exists>s. node_at h n = Some (Symbol s) \<and> B (KSym s) = None)) \<and>
         (\<forall>x. value_of k h root B = Some (Inl (KeyError x)) \<longrightarrow>
            (\<exists>s. x = KSym s \<and> B (KSym s) = None \<and> (\<exists>n\<in>set ns. node_at h n = Some (Symbol s)))) \<and>
         ((\<forall>n\<in>set ns. \<forall>s. node_at h n = Some (Symbol s) \<longrightarrow> B (KSym s) \<noteq> None) \<longrightarrow>
            (\<exists>v. value_of k h root B = Some (Inr v)))"
  using value_of_error[OF assms, of B] value_of_success[OF assms, of B]
    value_of_failure[OF assms, of B]
  by blast

theorem evaluate_missing_binding_witness:
  "case toy of (h, x, y, a, f) \<Rightarrow>
     postorder 3 h f = Some [x, y, a, x, f] \<and>
     (\<exists>k. value_of 3 h f [KSym ''x'' \<mapsto> 2] = Some (Inl (KeyError k))) \<and>
     (\<exists>v. value_of 3 h f xy23 = Some (Inr v))"
proof -
  define h where "h = \<lparr>nodes = [Symbol ''x'', Symbol ''y'', Add 0, Mul 1], kids = [(0, 1), (2, 0)]\<rparr>"
  have toy: "toy = (h, 0, 1, 2, 3)"
    by (simp add: toy_def h_def model_defs)
  have po: "postorder 3 h 3 = Some [0, 1, 2, 0, 3]"
    by (simp add: h_def model_defs eval_nat_numeral)
  have nodes: "node_at h 0 = Some (Symbol ''x'')" "node_at h 1 = Some (Symbol ''y'')"
    "node_at h 2 = Some (Add 0)" "node_at h 3 = Some (Mul 1)"
    by (simp_all add: h_def node_at_def)
  have "\<exists>k. value_of 3 h 3 [KSym ''x'' \<mapsto> 2] = Some (Inl (KeyError k))"
    using evaluate_missing_binding[OF po, of "[KSym ''x'' \<mapsto> 2]"] nodes by simp
  moreover have "\<exists>v. value_of 3 h 3 xy23 = Some (Inr v)"
    using evaluate_missing_binding[OF po, of xy23] nodes by (simp add: xy23_def)
  ultimately show ?thesis unfolding toy using po by simp
qed

subsection \<open>Denotations and the evaluator\<close>

lemma den_mono: "den h B n v d \<Longrightarrow> d \<le> e \<Longrightarrow> den h B n v e"
proof (induction arbitrary: e rule: den.induct)
  case (den_Symbol n s v d)
  then show ?case by (cases e) (auto intro: den.den_Symbol)
next
  case (den_Constant n c d)
  then show ?case by (cases e) (auto intro: den.den_Constant)
next
  case (den_Add n c a b va da vb db d)
  then have "da + db < e" by simp
  with den_Add.hyps(1-4) show ?case by (rule den.den_Add)
next
  case (den_Mul n c a b va da vb db d)
  then have "da + db < e" by simp
  with den_Mul.hyps(1-4) show ?case by (rule den.den_Mul)
qed

lemma den_pos: "den h B n v d \<Longrightarrow> 0 < d"
  by (induction rule: den.induct) auto

lemma den_det: "den h B n v d \<Longrightarrow> den h B n w e \<Longrightarrow> v = w"
proof (induction arbitrary: w e rule: den.induct)
  case (den_Symbol n s v d)
  from den_Symbol.prems den_Symbol.hyps show ?case by (cases rule: den.cases) auto
next
  case (den_Constant n c d)
  from den_Constant.prems den_Constant.hyps show ?case by (cases rule: den.cases) auto
next
  case (den_Add n c a b va da vb db d)
  from den_Add.prems den_Add.hyps show ?case
    by (cases rule: den.cases) (auto dest: den_Add.IH)
next
  case (den_Mul n c a b va da vb db d)
  from den_Mul.prems den_Mul.hyps show ?case
    by (cases rule: den.cases) (auto dest: den_Mul.IH)
qed

lemma den_node: "den h B n v d \<Longrightarrow> \<exists>nd. node_at h n = Some nd"
  by (induction rule: den.induct) auto

lemma den_postorder:
  "den h B n v d \<Longrightarrow> d \<le> k \<Longrightarrow>
     \<exists>ns. postorder k h n = Some ns \<and> (\<forall>m\<in>set ns. \<exists>w e. den h B m w e)"
proof (induction arbitrary: k rule: den.induct)
  case (den_Symbol n s v d)
  then obtain k' where "k = Suc k'" by (cases k) auto
  with den_Symbol show ?case
    by (auto simp: postorder_Suc children_def intro: den.den_Symbol)
next
  case (den_Constant n c d)
  then obtain k' where "k = Suc k'" by (cases k) auto
  with den_Constant show ?case
    by (auto simp: postorder_Suc children_def intro: den.den_Constant)
next
  case (den_Add n c a b va da vb db d)
  then obtain k' where k: "k = Suc k'" by (cases k) auto
  with den_Add.hyps den_Add.prems have "da \<le> k'" "db \<le> k'" by auto
  with den_Add.IH obtain xs ys where xs: "postorder k' h a = Some xs" "\<forall>m\<in>set xs. \<exists>w e. den h B m w e"
    and ys: "postorder k' h b = Some ys" "\<forall>m\<in>set ys. \<exists>w e. den h B m w e"
    by blast
  have "den h B n (va + vb) d" using den_Add.hyps by (rule den.den_Add)
  with xs ys den_Add.hyps k show ?case
    by (auto simp: postorder_Suc children_def)
next
  case (den_Mul n c a b va da vb db d)
  then obtain k' where k: "k = Suc k'" by (cases k) auto
  with den_Mul.hyps den_Mul.prems have "da \<le> k'" "db \<le> k'" by auto
  with den_Mul.IH obtain xs ys where xs: "postorder k' h a = Some xs" "\<forall>m\<in>set xs. \<exists>w e. den h B m w e"
    and ys: "postorder k' h b = Some ys" "\<forall>m\<in>set ys. \<exists>w e. den h B m w e"
    by blast
  have "den h B n (va * vb) d" using den_Mul.hyps by (rule den.den_Mul)
  with xs ys den_Mul.hyps k show ?case
    by (auto simp: postorder_Suc children_def)
qed

lemma postorder_den:
  "postorder k h n = Some ns \<Longrightarrow>
   \<forall>m\<in>set ns. \<forall>s. node_at h m = Some (Symbol s) \<longrightarrow> B (KSym s) \<noteq> None \<Longrightarrow>
   \<exists>v. den h B n v (length ns)"
proof (induction k arbitrary: n ns)
  case 0
  then show ?case by simp
next
  case (Suc k)
  from Suc.prems(1) obtain nd cs where nd: "node_at h n = Some nd" and cs: "children h nd = Some cs"
    by (auto split: option.splits)
  show ?case
  proof (cases nd)
    case (Symbol s)
    with Suc.prems nd have "ns = [n]" by (auto simp: postorder_Suc children_def)
    moreover from Suc.prems(2) this nd Symbol obtain v where "B (KSym s) = Some v" by auto
    ultimately show ?thesis using nd Symbol by (auto intro: den_Symbol)
  next
    case (Constant c)
    with Suc.prems nd have "ns = [n]" by (auto simp: postorder_Suc children_def)
    then show ?thesis using nd Constant by (auto intro: den_Constant)
  next
    case (Add c)
    with cs obtain a b where ab: "kids_at h c = Some (a, b)" "cs = [a, b]"
      by (auto simp: children_def)
    with Suc.prems(1) nd cs obtain xs ys where xs: "postorder k h a = Some xs"
      and ys: "postorder k h b = Some ys" and ns: "ns = xs @ ys @ [n]"
      by (auto simp: postorder_Suc split: option.splits)
    from Suc.prems(2) ns have bx: "\<forall>m\<in>set xs. \<forall>s. node_at h m = Some (Symbol s) \<longrightarrow> B (KSym s) \<noteq> None"
      and bys: "\<forall>m\<in>set ys. \<forall>s. node_at h m = Some (Symbol s) \<longrightarrow> B (KSym s) \<noteq> None"
      by auto
    from Suc.IH[OF xs bx] obtain va where "den h B a va (length xs)" by blast
    moreover from Suc.IH[OF ys bys] obtain vb where "den h B b vb (length ys)" by blast
    ultimately have "den h B n (va + vb) (length ns)"
      using nd Add ab(1) ns by (auto intro: den_Add)
    then show ?thesis ..
  next
    case (Mul c)
    with cs obtain a b where ab: "kids_at h c = Some (a, b)" "cs = [a, b]"
      by (auto simp: children_def)
    with Suc.prems(1) nd cs obtain xs ys where xs: "postorder k h a = Some xs"
      and ys: "postorder k h b = Some ys" and ns: "ns = xs @ ys @ [n]"
      by (auto simp: postorder_Suc split: option.splits)
    from Suc.prems(2) ns have bx: "\<forall>m\<in>set xs. \<forall>s. node_at h m = Some (Symbol s) \<longrightarrow> B (KSym s) \<noteq> None"
      and bys: "\<forall>m\<in>set ys. \<forall>s. node_at h m = Some (Symbol s) \<longrightarrow> B (KSym s) \<noteq> None"
      by auto
    from Suc.IH[OF xs bx] obtain va where "den h B a va (length xs)" by blast
    moreover from Suc.IH[OF ys bys] obtain vb where "den h B b vb (length ys)" by blast
    ultimately have "den h B n (va * vb) (length ns)"
      using nd Mul ab(1) ns by (auto intro: den_Mul)
    then show ?thesis ..
  qed
qed

lemma vals_ok_key:
  assumes "vals_ok h B v" "v (key_of h m) = Some x" "den h B m w d"
  shows "x = w"
proof -
  from assms(3) obtain nd where nd: "node_at h m = Some nd" using den_node by blast
  show ?thesis
  proof (cases "\<exists>s. nd = Symbol s")
    case True
    then obtain s where s: "nd = Symbol s" by blast
    with nd assms(1,2) have "B (KSym s) = Some x" by (simp add: key_of_cases vals_ok_def)
    moreover from assms(3) nd s have "B (KSym s) = Some w" by (cases rule: den.cases) auto
    ultimately show ?thesis by simp
  next
    case False
    with nd have "key_of h m = KObj m" by (cases nd) (auto simp: key_of_cases)
    with assms(1,2) have "\<exists>e. den h B m x e" by (simp add: vals_ok_def)
    then obtain e where "den h B m x e" by blast
    with assms(3) show ?thesis using den_det by blast
  qed
qed

lemma vals_ok_store:
  "vals_ok h B v \<Longrightarrow> den h B n x d \<Longrightarrow> vals_ok h B (v(KObj n \<mapsto> x))"
  by (auto simp: vals_ok_def)


lemma values_loop_den:
  "kids_done h S ns \<Longrightarrow> \<forall>m\<in>S \<union> set ns. \<exists>w d. den h B m w d \<Longrightarrow> vals_ok h B v \<Longrightarrow>
   \<forall>m\<in>S. v (key_of h m) \<noteq> None \<Longrightarrow>
   \<exists>v'. values_loop h v ns = Some (Inr v') \<and> vals_ok h B v' \<and>
        (\<forall>m\<in>S \<union> set ns. v' (key_of h m) \<noteq> None)"
proof (induction ns arbitrary: S v)
  case Nil
  then show ?case by simp
next
  case (Cons n ns)
  from Cons.prems(1) obtain cs where cs: "kids_of h n = Some cs" "set cs \<subseteq> S"
    and rest: "kids_done h (insert n S) ns"
    by (auto split: option.splits)
  from Cons.prems(2) have dens: "\<forall>m\<in>insert n S \<union> set ns. \<exists>w d. den h B m w d" by auto
  from Cons.prems(2) obtain w d where dn: "den h B n w d" by auto
  have fin: "\<exists>v'. values_loop h (v(KObj n \<mapsto> w)) ns = Some (Inr v') \<and> vals_ok h B v' \<and>
        (\<forall>m\<in>S \<union> set (n # ns). v' (key_of h m) \<noteq> None)"
    if "key_of h n = KObj n"
  proof -
    have ok1: "vals_ok h B (v(KObj n \<mapsto> w))" using Cons.prems(3) dn by (rule vals_ok_store)
    have ok2: "\<forall>m\<in>insert n S. (v(KObj n \<mapsto> w)) (key_of h m) \<noteq> None"
      using Cons.prems(4) that by auto
    from Cons.IH[of "insert n S" "v(KObj n \<mapsto> w)", OF rest dens ok1 ok2]
    obtain v' where v': "values_loop h (v(KObj n \<mapsto> w)) ns = Some (Inr v')" "vals_ok h B v'"
      "\<forall>m\<in>insert n S \<union> set ns. v' (key_of h m) \<noteq> None" by blast
    from v'(3) have "\<forall>m\<in>S \<union> set (n # ns). v' (key_of h m) \<noteq> None" by simp
    with v'(1,2) show ?thesis by blast
  qed
  show ?case
  proof (cases "v (key_of h n)")
    case (Some x)
    then have "\<forall>m\<in>insert n S. v (key_of h m) \<noteq> None" using Cons.prems(4) by auto
    from Cons.IH[OF rest dens Cons.prems(3) this] show ?thesis using Some by auto
  next
    case None
    from dn show ?thesis
    proof (cases rule: den.cases)
      case (den_Symbol s d')
      with Cons.prems(3) None show ?thesis by (simp add: key_of_cases vals_ok_def)
    next
      case (den_Constant d')
      then have k: "key_of h n = KObj n" by (simp add: key_of_cases)
      from fin[OF k] show ?thesis using None den_Constant k
        by (simp add: compute_value_def)
    next
      case (den_Add c a b va da vb db)
      then have k: "key_of h n = KObj n" by (simp add: key_of_cases)
      from cs den_Add have "a \<in> S" "b \<in> S" by (auto simp: kids_of_def children_def)
      with Cons.prems(4) obtain x y where xy: "v (key_of h a) = Some x" "v (key_of h b) = Some y"
        by fastforce
      have "x = va" using Cons.prems(3) xy(1) den_Add(4) by (rule vals_ok_key)
      moreover have "y = vb" using Cons.prems(3) xy(2) den_Add(5) by (rule vals_ok_key)
      ultimately show ?thesis using fin[OF k] None den_Add k xy
        by (simp add: compute_value_def lookup_def)
    next
      case (den_Mul c a b va da vb db)
      then have k: "key_of h n = KObj n" by (simp add: key_of_cases)
      from cs den_Mul have "a \<in> S" "b \<in> S" by (auto simp: kids_of_def children_def)
      with Cons.prems(4) obtain x y where xy: "v (key_of h a) = Some x" "v (key_of h b) = Some y"
        by fastforce
      have "x = va" using Cons.prems(3) xy(1) den_Mul(4) by (rule vals_ok_key)
      moreover have "y = vb" using Cons.prems(3) xy(2) den_Mul(5) by (rule vals_ok_key)
      ultimately show ?thesis using fin[OF k] None den_Mul k xy
        by (simp add: compute_value_def lookup_def)
    qed
  qed
qed

text \<open>Bindings that bind \<open>Symbol\<close>s only.\<close>

lemma values_den:
  assumes "den h B n v d" "d \<le> k" "\<forall>r. B (KObj r) = None"
  shows "\<exists>ns vals. postorder k h n = Some ns \<and> values k h n B = Some (Inr vals) \<and> vals_ok h B vals \<and>
           (\<forall>m\<in>set ns. vals (key_of h m) \<noteq> None)"
proof -
  from den_postorder[OF assms(1,2)] obtain ns where ns: "postorder k h n = Some ns"
    and dens: "\<forall>m\<in>set ns. \<exists>w e. den h B m w e" by blast
  have "kids_done h {} ns" using ns by (rule postorder_kids_done)
  moreover have "\<forall>m\<in>{} \<union> set ns. \<exists>w d. den h B m w d" using dens by simp
  moreover have "vals_ok h B B" using assms(3) by (simp add: vals_ok_def)
  moreover have "\<forall>m\<in>{}. B (key_of h m) \<noteq> None" by simp
  ultimately obtain v' where "values_loop h B ns = Some (Inr v')" "vals_ok h B v'"
    "\<forall>m\<in>{} \<union> set ns. v' (key_of h m) \<noteq> None"
    using values_loop_den[of h "{}" ns B B] by blast
  with ns show ?thesis by (simp add: values_def)
qed

lemma value_of_den:
  assumes "den h B n v d" "d \<le> k" "\<forall>r. B (KObj r) = None"
  shows "value_of k h n B = Some (Inr v)"
proof -
  from values_den[OF assms] obtain ns vals where ns: "postorder k h n = Some ns"
    and vals: "values k h n B = Some (Inr vals)" "vals_ok h B vals"
    "\<forall>m\<in>set ns. vals (key_of h m) \<noteq> None" by blast
  from ns have "n \<in> set ns" by (rule postorder_last)
  with vals(3) obtain x where x: "vals (key_of h n) = Some x" by auto
  from vals(2) x assms(1) have "x = v" by (rule vals_ok_key)
  with vals(1) x show ?thesis by (simp add: value_of_def lookup_def)
qed

subsection \<open>Constant folding\<close>

lemma den_heap_mono:
  assumes "\<And>n x. node_at h n = Some x \<Longrightarrow> node_at h' n = Some x"
    and "\<And>c p. kids_at h c = Some p \<Longrightarrow> kids_at h' c = Some p"
  shows "den h B m v d \<Longrightarrow> den h' B m v d"
proof (induction rule: den.induct)
  case (den_Symbol n s v d)
  then show ?case using assms(1) by (auto intro: den.den_Symbol)
next
  case (den_Constant n c d)
  then show ?case using assms(1) by (auto intro: den.den_Constant)
next
  case (den_Add n c a b va da vb db d)
  from assms(1)[OF den_Add.hyps(1)] assms(2)[OF den_Add.hyps(2)] den_Add.IH den_Add.hyps(5)
  show ?case by (rule den.den_Add)
next
  case (den_Mul n c a b va da vb db d)
  from assms(1)[OF den_Mul.hyps(1)] assms(2)[OF den_Mul.hyps(2)] den_Mul.IH den_Mul.hyps(5)
  show ?case by (rule den.den_Mul)
qed

lemma node_at_alloc:
  "node_at (fst (alloc h nd)) n = (if n = length (nodes h) then Some nd else node_at h n)"
  by (auto simp: alloc_def node_at_def nth_append)

lemma kids_at_alloc: "kids_at (fst (alloc h nd)) c = kids_at h c"
  by (simp add: alloc_def kids_at_def)

lemma snd_alloc: "snd (alloc h nd) = length (nodes h)"
  by (simp add: alloc_def)

lemma node_at_fresh: "node_at h (length (nodes h)) = None"
  by (simp add: node_at_def)

lemma den_alloc: "den h B m v d \<Longrightarrow> den (fst (alloc h nd)) B m v d"
  by (erule den_heap_mono[rotated 2]) (auto simp: node_at_alloc kids_at_alloc node_at_fresh)

lemma pres_refl: "pres h h"
  by (simp add: pres_def)

lemma pres_trans: "pres h h1 \<Longrightarrow> pres h1 h2 \<Longrightarrow> pres h h2"
  by (simp add: pres_def)

lemma pres_alloc: "pres h (fst (alloc h nd))"
  by (auto simp: pres_def node_at_alloc node_at_fresh intro: den_alloc)

lemma nm_ok_pres: "nm_ok h nm \<Longrightarrow> pres h h' \<Longrightarrow> nm_ok h' nm"
  unfolding nm_ok_def pres_def by blast

lemma den_same_node:
  assumes "den h B n v d" "node_at h n = Some nd" "node_at h m = Some nd"
  shows "den h B m v d"
  using assms(1)
proof (cases rule: den.cases)
  case (den_Symbol s d')
  with assms show ?thesis by (auto intro: den.den_Symbol)
next
  case (den_Constant d')
  with assms show ?thesis by (auto intro: den.den_Constant)
next
  case (den_Add c a b va da vb db)
  with assms(2,3) have "node_at h m = Some (Add c)" by simp
  from this den_Add(3-6) show ?thesis unfolding den_Add(1) by (rule den.den_Add)
next
  case (den_Mul c a b va da vb db)
  with assms(2,3) have "node_at h m = Some (Mul c)" by simp
  from this den_Mul(3-6) show ?thesis unfolding den_Mul(1) by (rule den.den_Mul)
qed

lemma den_const_value: "den h B n v d \<Longrightarrow> node_at h n = Some (Constant c) \<Longrightarrow> v = c"
  by (erule den.cases) auto

lemma den_ground_not_symbol: "den h Map.empty n v d \<Longrightarrow> node_at h n \<noteq> Some (Symbol s)"
  by (erule den.cases) auto

lemma den_ground_key: "den h Map.empty n v d \<Longrightarrow> key_of h n = KObj n"
  by (erule den.cases) (auto simp: key_of_cases)

text \<open>The identity rules keep the denotation.\<close>

lemma mul_identity_rule_den:
  assumes "den h B n v d"
  shows "\<exists>y. mul_identity_rule k h n = Some (h, y) \<and> den h B y v d"
  using assms
proof (cases rule: den.cases)
  case (den_Symbol s d')
  with assms show ?thesis by (auto simp: mul_identity_rule_def)
next
  case (den_Constant d')
  with assms show ?thesis by (auto simp: mul_identity_rule_def)
next
  case (den_Add c a b va da vb db)
  with assms show ?thesis by (auto simp: mul_identity_rule_def)
next
  case (den_Mul c a b va da vb db)
  have a: "den h B b v d" if "is_const h a (Some 1)"
  proof -
    from that have "node_at h a = Some (Constant 1)"
      by (auto simp: is_const_def split: option.splits node.splits)
    with den_Mul(4) have "va = 1" by (rule den_const_value)
    with den_Mul(1) have "v = vb" by simp
    with den_Mul(5,6) show ?thesis by (auto intro: den_mono)
  qed
  have b: "den h B a v d" if "is_const h b (Some 1)"
  proof -
    from that have "node_at h b = Some (Constant 1)"
      by (auto simp: is_const_def split: option.splits node.splits)
    with den_Mul(5) have "vb = 1" by (rule den_const_value)
    with den_Mul(1) have "v = va" by simp
    with den_Mul(4,6) show ?thesis by (auto intro: den_mono)
  qed
  from a b assms den_Mul(2,3) show ?thesis by (auto simp: mul_identity_rule_def)
qed

lemma add_identity_rule_den:
  assumes "den h B n v d"
  shows "\<exists>y. add_identity_rule k h n = Some (h, y) \<and> den h B y v d"
  using assms
proof (cases rule: den.cases)
  case (den_Symbol s d')
  with assms show ?thesis by (auto simp: add_identity_rule_def)
next
  case (den_Constant d')
  with assms show ?thesis by (auto simp: add_identity_rule_def)
next
  case (den_Mul c a b va da vb db)
  with assms show ?thesis by (auto simp: add_identity_rule_def)
next
  case (den_Add c a b va da vb db)
  have a: "den h B b v d" if "is_const h a (Some 0)"
  proof -
    from that have "node_at h a = Some (Constant 0)"
      by (auto simp: is_const_def split: option.splits node.splits)
    with den_Add(4) have "va = 0" by (rule den_const_value)
    with den_Add(1) have "v = vb" by simp
    with den_Add(5,6) show ?thesis by (auto intro: den_mono)
  qed
  have b: "den h B a v d" if "is_const h b (Some 0)"
  proof -
    from that have "node_at h b = Some (Constant 0)"
      by (auto simp: is_const_def split: option.splits node.splits)
    with den_Add(5) have "vb = 0" by (rule den_const_value)
    with den_Add(1) have "v = va" by simp
    with den_Add(4,6) show ?thesis by (auto intro: den_mono)
  qed
  from a b assms den_Add(2,3) show ?thesis by (auto simp: add_identity_rule_def)
qed

lemma eval_to_const_rule_den:
  assumes "den h Map.empty n v d" "d \<le> k"
  shows "eval_to_const_rule k h n = Some (new_Constant h v)"
  using value_of_den[OF assms] by (simp add: eval_to_const_rule_def)

lemma apply_rules_den:
  assumes "den h Map.empty n v d" "d \<le> k"
  shows "apply_rules rules k h n = Some (new_Constant h v)"
proof -
  from mul_identity_rule_den[OF assms(1)] obtain y1 where
    y1: "mul_identity_rule k h n = Some (h, y1)" "den h Map.empty y1 v d" by blast
  from add_identity_rule_den[OF y1(2)] obtain y2 where
    y2: "add_identity_rule k h y1 = Some (h, y2)" "den h Map.empty y2 v d" by blast
  from eval_to_const_rule_den[OF y2(2) assms(2)] y1(1) y2(1) show ?thesis
    by (simp add: rules_def split: prod.splits)
qed


text \<open>Writing into a children list a \<open>Constant\<close> that holds the denotation of the child it
  replaces keeps every denotation.\<close>

lemma den_relink:
  assumes kc: "kids_at h c = Some (a, b)"
    and ra: "a' = a \<or> (\<exists>cv e. node_at h a' = Some (Constant cv) \<and> den h Map.empty a cv e)"
    and rb: "b' = b \<or> (\<exists>cv e. node_at h b' = Some (Constant cv) \<and> den h Map.empty b cv e)"
    and h': "h' = h\<lparr>kids := (kids h)[c := (a', b')]\<rparr>"
  shows "den h Map.empty m v d \<Longrightarrow> den h' Map.empty m v d"
proof (induction rule: den.induct)
  case (den_Symbol n s v d)
  then show ?case by simp
next
  case (den_Constant n cv d)
  have "node_at h' n = node_at h n" using h' by (simp add: node_at_def)
  with den_Constant have "node_at h' n = Some (Constant cv)" by simp
  then show ?case by (rule den.den_Constant)
next
  case (den_Add n c0 x y vx dx vy dy d)
  have nodes: "\<And>r. node_at h' r = node_at h r" using h' by (simp add: node_at_def)
  have kids: "kids_at h' c0 = (if c0 = c then Some (a', b') else Some (x, y))"
    using h' kc den_Add.hyps(2) by (auto simp: kids_at_def split: if_splits)
  have "\<exists>x' y'. kids_at h' c0 = Some (x', y') \<and> den h' Map.empty x' vx dx \<and> den h' Map.empty y' vy dy"
  proof (cases "c0 = c")
    case False
    with kids den_Add.IH show ?thesis by simp
  next
    case True
    with kc den_Add.hyps(2) have xy: "x = a" "y = b" by simp_all
    have "den h' Map.empty a' vx dx"
    proof (cases "a' = a")
      case True
      with den_Add.IH(1) xy show ?thesis by simp
    next
      case False
      with ra obtain cv e where cv: "node_at h a' = Some (Constant cv)" "den h Map.empty a cv e" by blast
      from cv(2) den_Add.hyps(3) xy have "cv = vx" by (auto dest: den_det)
      moreover from den_Add.hyps(3) obtain dx' where "dx = Suc dx'"
        using den_pos by (cases dx) fastforce+
      ultimately show ?thesis using cv(1) nodes by (auto intro: den.den_Constant)
    qed
    moreover have "den h' Map.empty b' vy dy"
    proof (cases "b' = b")
      case True
      with den_Add.IH(2) xy show ?thesis by simp
    next
      case False
      with rb obtain cv e where cv: "node_at h b' = Some (Constant cv)" "den h Map.empty b cv e" by blast
      from cv(2) den_Add.hyps(4) xy have "cv = vy" by (auto dest: den_det)
      moreover from den_Add.hyps(4) obtain dy' where "dy = Suc dy'"
        using den_pos by (cases dy) fastforce+
      ultimately show ?thesis using cv(1) nodes by (auto intro: den.den_Constant)
    qed
    ultimately show ?thesis using kids True by simp
  qed
  then obtain x' y' where "kids_at h' c0 = Some (x', y')" "den h' Map.empty x' vx dx"
    "den h' Map.empty y' vy dy" by blast
  with den_Add.hyps(1,5) nodes show ?case by (auto intro: den.den_Add)
next
  case (den_Mul n c0 x y vx dx vy dy d)
  have nodes: "\<And>r. node_at h' r = node_at h r" using h' by (simp add: node_at_def)
  have kids: "kids_at h' c0 = (if c0 = c then Some (a', b') else Some (x, y))"
    using h' kc den_Mul.hyps(2) by (auto simp: kids_at_def split: if_splits)
  have "\<exists>x' y'. kids_at h' c0 = Some (x', y') \<and> den h' Map.empty x' vx dx \<and> den h' Map.empty y' vy dy"
  proof (cases "c0 = c")
    case False
    with kids den_Mul.IH show ?thesis by simp
  next
    case True
    with kc den_Mul.hyps(2) have xy: "x = a" "y = b" by simp_all
    have "den h' Map.empty a' vx dx"
    proof (cases "a' = a")
      case True
      with den_Mul.IH(1) xy show ?thesis by simp
    next
      case False
      with ra obtain cv e where cv: "node_at h a' = Some (Constant cv)" "den h Map.empty a cv e" by blast
      from cv(2) den_Mul.hyps(3) xy have "cv = vx" by (auto dest: den_det)
      moreover from den_Mul.hyps(3) obtain dx' where "dx = Suc dx'"
        using den_pos by (cases dx) fastforce+
      ultimately show ?thesis using cv(1) nodes by (auto intro: den.den_Constant)
    qed
    moreover have "den h' Map.empty b' vy dy"
    proof (cases "b' = b")
      case True
      with den_Mul.IH(2) xy show ?thesis by simp
    next
      case False
      with rb obtain cv e where cv: "node_at h b' = Some (Constant cv)" "den h Map.empty b cv e" by blast
      from cv(2) den_Mul.hyps(4) xy have "cv = vy" by (auto dest: den_det)
      moreover from den_Mul.hyps(4) obtain dy' where "dy = Suc dy'"
        using den_pos by (cases dy) fastforce+
      ultimately show ?thesis using cv(1) nodes by (auto intro: den.den_Constant)
    qed
    ultimately show ?thesis using kids True by simp
  qed
  then obtain x' y' where "kids_at h' c0 = Some (x', y')" "den h' Map.empty x' vx dx"
    "den h' Map.empty y' vy dy" by blast
  with den_Mul.hyps(1,5) nodes show ?case by (auto intro: den.den_Mul)
qed

lemma nodemap_get_ok:
  assumes "nm_ok h nm" "den h Map.empty a va da"
  shows "nodemap_get h nm a = a \<or>
    (\<exists>cv e. node_at h (nodemap_get h nm a) = Some (Constant cv) \<and> den h Map.empty a cv e)"
proof (cases "nm (KObj a)")
  case None
  with den_ground_key[OF assms(2)] show ?thesis by (simp add: nodemap_get_def)
next
  case (Some r)
  with assms(1) obtain cv e where "node_at h r = Some (Constant cv)" "den h Map.empty a cv e"
    unfolding nm_ok_def by blast
  with Some den_ground_key[OF assms(2)] show ?thesis by (auto simp: nodemap_get_def)
qed

lemma relink_pres:
  assumes "nm_ok h nm" "kids_at h c = Some (a, b)" "den h Map.empty a va da" "den h Map.empty b vb db"
  shows "\<exists>h'. relink h nm c = Some h' \<and> pres h h'"
proof -
  let ?h' = "h\<lparr>kids := (kids h)[c := (nodemap_get h nm a, nodemap_get h nm b)]\<rparr>"
  have "den ?h' Map.empty m v d" if "den h Map.empty m v d" for m v d
    using assms(2) nodemap_get_ok[OF assms(1,3)] nodemap_get_ok[OF assms(1,4)] refl that
    by (rule den_relink)
  moreover have "node_at ?h' n = node_at h n" for n by (simp add: node_at_def)
  ultimately have "pres h ?h'" by (simp add: pres_def)
  with assms(2) show ?thesis by (simp add: relink_def)
qed


lemma nm_ok_store:
  "nm_ok h nm \<Longrightarrow> node_at h r = Some (Constant v) \<Longrightarrow> den h Map.empty n v d \<Longrightarrow>
   nm_ok h (nm(KObj n \<mapsto> r))"
  unfolding nm_ok_def by (auto dest: den_det)

lemma den_Add_inv:
  "den h B n v d \<Longrightarrow> node_at h n = Some (Add c) \<Longrightarrow>
   \<exists>a b va vb da db. kids_at h c = Some (a, b) \<and> den h B a va da \<and> den h B b vb db \<and>
     da + db < d \<and> v = va + vb"
  by (erule den.cases) auto

lemma den_Mul_inv:
  "den h B n v d \<Longrightarrow> node_at h n = Some (Mul c) \<Longrightarrow>
   \<exists>a b va vb da db. kids_at h c = Some (a, b) \<and> den h B a va da \<and> den h B b vb db \<and>
     da + db < d \<and> v = va * vb"
  by (erule den.cases) auto

lemma pres_node: "pres h h' \<Longrightarrow> node_at h n = Some nd \<Longrightarrow> node_at h' n = Some nd"
  by (simp add: pres_def)

lemma pres_den: "pres h h' \<Longrightarrow> den h Map.empty n v d \<Longrightarrow> den h' Map.empty n v d"
  by (simp add: pres_def)

text \<open>The rules on the rebuilt node \<open>nc\<close>, a copy of the node \<open>n\<close>.\<close>

lemma fold_copy:
  assumes d: "den h2 Map.empty n v d" "d \<le> k"
    and n: "node_at h2 n = Some nd" and nc: "node_at h2 nc = Some nd"
  shows "\<exists>h3 r. apply_rules rules k h2 nc = Some (h3, r) \<and> pres h2 h3 \<and>
           node_at h3 r = Some (Constant v)"
proof -
  from d(1) n nc have "den h2 Map.empty nc v d" by (rule den_same_node)
  from apply_rules_den[OF this d(2)]
  have "apply_rules rules k h2 nc = Some (fst (alloc h2 (Constant v)), length (nodes h2))"
    by (simp add: new_Constant_def alloc_def)
  moreover have "pres h2 (fst (alloc h2 (Constant v)))" by (rule pres_alloc)
  moreover have "node_at (fst (alloc h2 (Constant v))) (length (nodes h2)) = Some (Constant v)"
    by (simp add: node_at_alloc)
  ultimately show ?thesis by blast
qed

lemma simplify_body_ground:
  assumes d: "den h Map.empty n v d" "d \<le> k" and nm: "nm_ok h nm"
  shows "\<exists>h' r. simplify_body k h nm n = Some (h', nm(KObj n \<mapsto> r)) \<and> pres h h' \<and>
           node_at h' r = Some (Constant v)"
proof -
  from d(1) obtain nd where nd: "node_at h n = Some nd" using den_node by blast
  have key: "key_of h n = KObj n" using d(1) by (rule den_ground_key)
  let ?h1 = "fst (alloc h nd)" and ?nc = "length (nodes h)"
  have al: "alloc h nd = (?h1, ?nc)" by (simp add: alloc_def)
  have p1: "pres h ?h1" by (rule pres_alloc)
  have nc1: "node_at ?h1 ?nc = Some nd" by (simp add: node_at_alloc)
  have fin: "\<exists>h' r. apply_rules rules k h2 ?nc = Some (h', r) \<and> pres h h' \<and>
               node_at h' r = Some (Constant v)" if p2: "pres ?h1 h2" for h2
  proof -
    have p: "pres h h2" using p1 p2 by (rule pres_trans)
    from fold_copy[OF pres_den[OF p d(1)] d(2) pres_node[OF p nd] pres_node[OF p2 nc1]]
    obtain h3 r where "apply_rules rules k h2 ?nc = Some (h3, r)" "pres h2 h3"
      "node_at h3 r = Some (Constant v)" by blast
    with p show ?thesis by (blast intro: pres_trans)
  qed
  show ?thesis
  proof (cases nd)
    case (Symbol s)
    with d(1) nd show ?thesis using den_ground_not_symbol by blast
  next
    case (Constant c)
    from fin[OF pres_refl] nd Constant key show ?thesis
      by (auto simp: simplify_body_def case_prod_beta snd_alloc)
  next
    case (Add c)
    from den_Add_inv[OF d(1)] nd Add obtain a b va vb da db where
      ab: "kids_at h c = Some (a, b)" "den h Map.empty a va da" "den h Map.empty b vb db" by auto
    have "kids_at ?h1 c = Some (a, b)" using ab(1) by (simp add: kids_at_alloc)
    from relink_pres[OF nm_ok_pres[OF nm p1] this pres_den[OF p1 ab(2)] pres_den[OF p1 ab(3)]]
    obtain h2 where h2: "relink ?h1 nm c = Some h2" "pres ?h1 h2" by blast
    from fin[OF h2(2)] h2(1) nd Add key show ?thesis
      by (auto simp: simplify_body_def case_prod_beta snd_alloc)
  next
    case (Mul c)
    from den_Mul_inv[OF d(1)] nd Mul obtain a b va vb da db where
      ab: "kids_at h c = Some (a, b)" "den h Map.empty a va da" "den h Map.empty b vb db" by auto
    have "kids_at ?h1 c = Some (a, b)" using ab(1) by (simp add: kids_at_alloc)
    from relink_pres[OF nm_ok_pres[OF nm p1] this pres_den[OF p1 ab(2)] pres_den[OF p1 ab(3)]]
    obtain h2 where h2: "relink ?h1 nm c = Some h2" "pres ?h1 h2" by blast
    from fin[OF h2(2)] h2(1) nd Mul key show ?thesis
      by (auto simp: simplify_body_def case_prod_beta snd_alloc)
  qed
qed

lemma simplify_body_ground':
  assumes d: "den h Map.empty n v d" "d \<le> k" and nm: "nm_ok h nm"
  shows "\<exists>h' nm' r. simplify_body k h nm n = Some (h', nm') \<and> pres h h' \<and> nm_ok h' nm' \<and>
           nm' (KObj n) = Some r \<and> node_at h' r = Some (Constant v)"
proof -
  from simplify_body_ground[OF assms] obtain h' r where
    b: "simplify_body k h nm n = Some (h', nm(KObj n \<mapsto> r))" "pres h h'"
    "node_at h' r = Some (Constant v)" by blast
  have "nm_ok h' (nm(KObj n \<mapsto> r))"
    using nm_ok_pres[OF nm b(2)] b(3) pres_den[OF b(2) d(1)] by (rule nm_ok_store)
  with b show ?thesis by auto
qed


lemma simplify_walk_ground:
  "den h Map.empty n v d \<Longrightarrow> d \<le> k \<Longrightarrow> nm_ok h nm \<Longrightarrow>
   \<exists>h' nm' r. simplify_walk k n (h, nm) = Some (h', nm') \<and> pres h h' \<and> nm_ok h' nm' \<and>
     nm' (KObj n) = Some r \<and> node_at h' r = Some (Constant v)"
proof (induction k arbitrary: h n v d nm)
  case 0
  then show ?case using den_pos by fastforce
next
  case (Suc k)
  from Suc.prems(1) obtain nd where nd: "node_at h n = Some nd" using den_node by blast
  have kids: "\<exists>h' nm' r. simplify_kids k n c (h, nm) = Some (h', nm') \<and> pres h h' \<and> nm_ok h' nm' \<and>
     nm' (KObj n) = Some r \<and> node_at h' r = Some (Constant v)"
    if inv: "\<And>h1. pres h h1 \<Longrightarrow> \<exists>a b va vb da db. kids_at h1 c = Some (a, b) \<and>
        den h1 Map.empty a va da \<and> den h1 Map.empty b vb db \<and> da + db < d" for c
  proof -
    from inv[OF pres_refl] obtain a b0 va vb0 da db0 where
      a: "kids_at h c = Some (a, b0)" "den h Map.empty a va da" "da + db0 < d" by blast
    with Suc.prems(2) have "da \<le> k" by simp
    from Suc.IH[OF a(2) this Suc.prems(3)] obtain h1 nm1 where
      w1: "simplify_walk k a (h, nm) = Some (h1, nm1)" "pres h h1" "nm_ok h1 nm1" by blast
    from inv[OF w1(2)] obtain a1 b va1 vb da1 db where
      b: "kids_at h1 c = Some (a1, b)" "den h1 Map.empty b vb db" "da1 + db < d" by blast
    with Suc.prems(2) have "db \<le> k" by simp
    from Suc.IH[OF b(2) this w1(3)] obtain h2 nm2 where
      w2: "simplify_walk k b (h1, nm1) = Some (h2, nm2)" "pres h1 h2" "nm_ok h2 nm2" by blast
    have p2: "pres h h2" using w1(2) w2(2) by (rule pres_trans)
    from simplify_body_ground'[OF pres_den[OF p2 Suc.prems(1)] Suc.prems(2) w2(3)]
    obtain h3 nm3 r where bd: "simplify_body (Suc k) h2 nm2 n = Some (h3, nm3)" "pres h2 h3"
      "nm_ok h3 nm3" "nm3 (KObj n) = Some r" "node_at h3 r = Some (Constant v)" by blast
    have "pres h h3" using p2 bd(2) by (rule pres_trans)
    with a(1) w1(1) b(1) w2(1) bd show ?thesis by auto
  qed
  show ?case
  proof (cases nd)
    case (Symbol s)
    with Suc.prems(1) nd show ?thesis using den_ground_not_symbol by blast
  next
    case (Constant c)
    with simplify_body_ground'[OF Suc.prems] nd show ?thesis by simp
  next
    case (Add c)
    have "\<exists>a b va vb da db. kids_at h1 c = Some (a, b) \<and>
        den h1 Map.empty a va da \<and> den h1 Map.empty b vb db \<and> da + db < d" if "pres h h1" for h1
      using den_Add_inv[OF pres_den[OF that Suc.prems(1)]] pres_node[OF that nd] Add by blast
    from kids[OF this] nd Add show ?thesis by simp
  next
    case (Mul c)
    have "\<exists>a b va vb da db. kids_at h1 c = Some (a, b) \<and>
        den h1 Map.empty a va da \<and> den h1 Map.empty b vb db \<and> da + db < d" if "pres h h1" for h1
      using den_Mul_inv[OF pres_den[OF that Suc.prems(1)]] pres_node[OF that nd] Mul by blast
    from kids[OF this] nd Mul show ?thesis by simp
  qed
qed

lemma simplify_ground:
  assumes "den h Map.empty e v d" "d \<le> k"
  shows "\<exists>h' r. simplify k h e = Some (h', Inr r) \<and> node_at h' r = Some (Constant v)"
proof -
  have "nm_ok h Map.empty" by (simp add: nm_ok_def)
  from simplify_walk_ground[OF assms this] obtain h' nm' r where
    w: "simplify_walk k e (h, Map.empty) = Some (h', nm')" "pres h h'"
    "nm' (KObj e) = Some r" "node_at h' r = Some (Constant v)" by blast
  have "key_of h' e = KObj e" using pres_den[OF w(2) assms(1)] by (rule den_ground_key)
  with w show ?thesis by (simp add: simplify_def lookup_def)
qed

lemma postorder_fuel: "postorder k h n = Some ns \<Longrightarrow> k \<le> j \<Longrightarrow> postorder j h n = Some ns"
proof (induction k arbitrary: n ns j)
  case 0
  then show ?case by simp
next
  case (Suc k)
  from Suc.prems(2) obtain j' where j: "j = Suc j'" "k \<le> j'" by (cases j) auto
  from Suc.prems(1) obtain nd cs where nd: "node_at h n = Some nd" and cs: "children h nd = Some cs"
    by (auto split: option.splits)
  from children_cases[OF cs] show ?case
  proof
    assume "cs = []"
    with Suc.prems(1) nd cs j show ?thesis by (simp add: postorder_Suc)
  next
    assume "\<exists>a b. cs = [a, b]"
    then obtain a b where ab: "cs = [a, b]" by blast
    with Suc.prems(1) nd cs obtain xs ys where xs: "postorder k h a = Some xs"
      and ys: "postorder k h b = Some ys" and ns: "ns = xs @ ys @ [n]"
      by (auto simp: postorder_Suc split: option.splits)
    from Suc.IH[OF xs j(2)] Suc.IH[OF ys j(2)] nd cs ab ns j show ?thesis
      by (simp add: postorder_Suc)
  qed
qed

lemma value_of_fuel:
  "postorder k h n = Some ns \<Longrightarrow> k \<le> j \<Longrightarrow> value_of j h n B = value_of k h n B"
  using postorder_fuel[of k h n ns j] by (simp add: value_of_def values_def)

text \<open>
  C7. Let \<open>ns\<close> be the nodes that \<open>postorder\<close> yields from \<open>e\<close>, none of them a \<open>Symbol\<close>. Then
  \<open>value\<close> with empty bindings returns a number \<open>v\<close>; with fuel of at least the number of
  yielded nodes, \<open>simplify(e)\<close> returns a \<open>Constant\<close> node holding \<open>v\<close>, and so does
  \<open>eval_to_const_rule\<close> applied to \<open>e\<close> itself. On a node from which a \<open>Symbol\<close> is reachable,
  the evaluation with empty bindings fails and \<open>eval_to_const_rule\<close> returns the node and
  leaves the heap as it is.
\<close>

theorem constant_folding:
  assumes "postorder k h e = Some ns"
    and "\<forall>n\<in>set ns. \<forall>s. node_at h n \<noteq> Some (Symbol s)"
  shows "\<exists>v. value_of k h e Map.empty = Some (Inr v) \<and>
           (\<forall>j\<ge>length ns. \<exists>h' r. simplify j h e = Some (h', Inr r) \<and>
                node_at h' r = Some (Constant v)) \<and>
           (\<forall>j\<ge>length ns. eval_to_const_rule j h e = Some (new_Constant h v)) \<and>
           (\<forall>n ms. postorder k h n = Some ms \<and> (\<exists>m\<in>set ms. \<exists>s. node_at h m = Some (Symbol s)) \<longrightarrow>
                eval_to_const_rule k h n = Some (h, n))"
proof -
  from assms(2) have "\<forall>m\<in>set ns. \<forall>s. node_at h m = Some (Symbol s) \<longrightarrow> Map.empty (KSym s) \<noteq> None"
    by simp
  from postorder_den[OF assms(1) this] obtain v where v: "den h Map.empty e v (length ns)" by blast
  have "value_of (max k (length ns)) h e Map.empty = Some (Inr v)"
    using v by (rule value_of_den) simp_all
  then have 1: "value_of k h e Map.empty = Some (Inr v)"
    using value_of_fuel[OF assms(1), of "max k (length ns)" Map.empty] by simp
  have 2: "\<exists>h' r. simplify j h e = Some (h', Inr r) \<and> node_at h' r = Some (Constant v)"
    if "length ns \<le> j" for j using v that by (rule simplify_ground)
  have 3: "eval_to_const_rule j h e = Some (new_Constant h v)" if "length ns \<le> j" for j
    using v that by (rule eval_to_const_rule_den)
  have 4: "eval_to_const_rule k h n = Some (h, n)"
    if "postorder k h n = Some ms" "\<exists>m\<in>set ms. \<exists>s. node_at h m = Some (Symbol s)" for n ms
  proof -
    from that(2) have "\<exists>m\<in>set ms. \<exists>s. node_at h m = Some (Symbol s) \<and> Map.empty (KSym s) = None"
      by simp
    from value_of_failure[OF that(1) this]
    obtain x where "value_of k h n Map.empty = Some (Inl (KeyError x))" by blast
    then show ?thesis by (simp add: eval_to_const_rule_def)
  qed
  from 1 2 3 4 show ?thesis by blast
qed


theorem constant_folding_witness:
  "case five_ones of (h, e) \<Rightarrow>
     postorder 5 h e = Some [0, 1, 2, 3, 4, 5, 6, 7, 8] \<and>
     value_of 5 h e Map.empty = Some (Inr 5) \<and>
     (\<exists>h' r. simplify 9 h e = Some (h', Inr r) \<and> node_at h' r = Some (Constant 5))"
proof -
  define h where "h = \<lparr>nodes = [Constant 1, Constant 1, Add 0, Constant 1, Add 1, Constant 1,
     Add 2, Constant 1, Add 3], kids = [(0, 1), (2, 3), (4, 5), (6, 7)]\<rparr>"
  have five: "five_ones = (h, 8)"
    by (simp add: five_ones_def h_def model_defs)
  have po: "postorder 5 h 8 = Some [0, 1, 2, 3, 4, 5, 6, 7, 8]"
    by (simp add: h_def model_defs eval_nat_numeral)
  have nosym: "\<forall>n\<in>set [0, 1, 2, 3, 4, 5, 6, 7, 8]. \<forall>s. node_at h n \<noteq> Some (Symbol s)"
    by (simp add: h_def node_at_def)
  have val: "value_of 5 h 8 Map.empty = Some (Inr 5)"
    by (simp add: h_def model_defs eval_nat_numeral)
  from constant_folding[OF po nosym] val
  have "\<exists>h' r. simplify 9 h 8 = Some (h', Inr r) \<and> node_at h' r = Some (Constant 5)"
    by auto
  with po val show ?thesis unfolding five by simp
qed

subsection \<open>Symbolic and numeric gradient\<close>

lemma ext_refl: "ext h h"
  by (simp add: ext_def)

lemma ext_trans: "ext h h1 \<Longrightarrow> ext h1 h2 \<Longrightarrow> ext h h2"
  unfolding ext_def by blast

lemma ext_node: "ext h h' \<Longrightarrow> node_at h n = Some x \<Longrightarrow> node_at h' n = Some x"
  by (simp add: ext_def)

lemma ext_kids: "ext h h' \<Longrightarrow> kids_at h c = Some p \<Longrightarrow> kids_at h' c = Some p"
  unfolding ext_def by blast

lemma ext_den: "ext h h' \<Longrightarrow> den h B m v d \<Longrightarrow> den h' B m v d"
  by (rule den_heap_mono[where h = h]) (blast intro: ext_node ext_kids)+

lemma ext_key: "ext h h' \<Longrightarrow> node_at h n = Some x \<Longrightarrow> key_of h' n = key_of h n"
  by (simp add: ext_def key_of_def)

lemma ext_children:
  "ext h h' \<Longrightarrow> children h nd = Some cs \<Longrightarrow> children h' nd = Some cs"
  by (cases nd) (auto simp: children_def dest: ext_kids)

lemma ext_alloc: "ext h (fst (alloc h nd))"
  by (auto simp: ext_def node_at_alloc kids_at_alloc node_at_fresh)

lemma new_Constant_ext:
  "new_Constant h v = (h1, r) \<Longrightarrow> ext h h1 \<and> (\<forall>d. den h1 B r v (Suc d))"
  by (auto simp: new_Constant_def alloc_def ext_def node_at_def kids_at_def nth_append
      intro!: den_Constant)

lemma new_Add_ext:
  assumes "new_Add h x y = (h1, s)" "den h B x vx dx" "den h B y vy dy"
  shows "ext h h1 \<and> (\<exists>d. den h1 B s (vx + vy) d)"
proof -
  let ?c = "length (kids h)"
  from assms(1) have h1: "h1 = \<lparr>nodes = nodes h @ [Add ?c], kids = kids h @ [(x, y)]\<rparr>"
    and s: "s = length (nodes h)"
    by (auto simp: new_Add_def alloc_def)
  have e: "ext h h1" using h1 by (auto simp: ext_def node_at_def kids_at_def nth_append)
  have "node_at h1 s = Some (Add ?c)" "kids_at h1 ?c = Some (x, y)"
    using h1 s by (auto simp: node_at_def kids_at_def)
  from this ext_den[OF e assms(2)] ext_den[OF e assms(3)]
  have "den h1 B s (vx + vy) (Suc (dx + dy))" by (rule den_Add) simp
  with e show ?thesis by blast
qed

lemma new_Mul_ext:
  assumes "new_Mul h x y = (h1, s)" "den h B x vx dx" "den h B y vy dy"
  shows "ext h h1 \<and> (\<exists>d. den h1 B s (vx * vy) d)"
proof -
  let ?c = "length (kids h)"
  from assms(1) have h1: "h1 = \<lparr>nodes = nodes h @ [Mul ?c], kids = kids h @ [(x, y)]\<rparr>"
    and s: "s = length (nodes h)"
    by (auto simp: new_Mul_def alloc_def)
  have e: "ext h h1" using h1 by (auto simp: ext_def node_at_def kids_at_def nth_append)
  have "node_at h1 s = Some (Mul ?c)" "kids_at h1 ?c = Some (x, y)"
    using h1 s by (auto simp: node_at_def kids_at_def)
  from this ext_den[OF e assms(2)] ext_den[OF e assms(3)]
  have "den h1 B s (vx * vy) (Suc (dx + dy))" by (rule den_Mul) simp
  with e show ?thesis by blast
qed

lemma sym_add_nodes: "sym_add h (N x) (N y) = new_Add h x y"
  by (simp add: sym_add_def wrap_arg_def)

lemma sym_mul_nodes: "sym_mul h (N x) (N y) = new_Mul h x y"
  by (simp add: sym_mul_def wrap_arg_def)

text \<open>The products of the local gradients with the incoming gradient.\<close>

lemma mul_all_den:
  "mul_all h ls r = (h', ms) \<Longrightarrow> den h B r g dr \<Longrightarrow>
   list_all2 (\<lambda>l lv. \<exists>d. den h B l lv d) ls lvs \<Longrightarrow>
   ext h h' \<and> list_all2 (\<lambda>m mv. \<exists>d. den h' B m mv d) ms (map (\<lambda>l. l * g) lvs)"
proof (induction ls arbitrary: h h' ms lvs dr)
  case Nil
  then show ?case by (simp add: ext_refl)
next
  case (Cons l ls)
  from Cons.prems(3) obtain lv lvs' where lvs: "lvs = lv # lvs'"
    and l: "\<exists>d. den h B l lv d" and rest: "list_all2 (\<lambda>l lv. \<exists>d. den h B l lv d) ls lvs'"
    by (auto simp: list_all2_Cons1)
  obtain h1 m where m: "new_Mul h l r = (h1, m)" by (cases "new_Mul h l r")
  obtain h2 ms' where ms': "mul_all h1 ls r = (h2, ms')" by (cases "mul_all h1 ls r")
  from Cons.prems(1) m ms' have eq: "h' = h2" "ms = m # ms'" by (simp_all add: sym_mul_nodes)
  from l obtain dl where "den h B l lv dl" by blast
  from new_Mul_ext[OF m this Cons.prems(2)] obtain dm where e1: "ext h h1"
    and dm: "den h1 B m (lv * g) dm" by blast
  have "list_all2 (\<lambda>l lv. \<exists>d. den h1 B l lv d) ls lvs'"
    using rest e1 by (auto elim!: list_all2_mono intro: ext_den)
  from Cons.IH[OF ms' ext_den[OF e1 Cons.prems(2)] this]
  have e2: "ext h1 h2" and ds: "list_all2 (\<lambda>m mv. \<exists>d. den h2 B m mv d) ms' (map (\<lambda>l. l * g) lvs')"
    by simp_all
  from e1 e2 have "ext h h2" by (rule ext_trans)
  moreover have "\<exists>d. den h2 B m (lv * g) d" using ext_den[OF e2 dm] by blast
  ultimately show ?case using ds eq lvs by simp
qed

lemma drel_ext: "drel h B dn ds \<Longrightarrow> ext h h' \<Longrightarrow> drel h' B dn ds"
  unfolding drel_def
proof
  fix x
  assume a: "\<forall>x. rel_option (\<lambda>g r. \<exists>d. den h B r g d) (dn x) (ds x)" and e: "ext h h'"
  from a have "rel_option (\<lambda>g r. \<exists>d. den h B r g d) (dn x) (ds x)" ..
  then show "rel_option (\<lambda>g r. \<exists>d. den h' B r g d) (dn x) (ds x)"
    by (rule option.rel_mono_strong) (blast intro: ext_den[OF e])
qed

text \<open>\<open>derivatives[n] = derivatives[n] + in_grad\<close> against \<open>derivatives[n] += in_grad\<close>.\<close>

lemma accumulate_rel:
  assumes "drel h B dn ds" "den h B r g dr"
    and "(case ds x of Some r0 \<Rightarrow> (h, r0) | None \<Rightarrow> new_Constant h 0) = (h1, old)"
    and "sym_add h1 (N old) (N r) = (h2, s)"
  shows "ext h h2 \<and> drel h2 B (dn(x \<mapsto> (case dn x of None \<Rightarrow> 0 | Some y \<Rightarrow> y) + g)) (ds(x \<mapsto> s))"
proof -
  let ?o = "case dn x of None \<Rightarrow> 0 | Some y \<Rightarrow> y"
  have rel: "rel_option (\<lambda>g r. \<exists>d. den h B r g d) (dn x) (ds x)"
    using assms(1) by (simp add: drel_def)
  have 1: "ext h h1 \<and> (\<exists>d. den h1 B old ?o d)"
  proof (cases "ds x")
    case None
    with rel have "dn x = None" by (cases "dn x") auto
    with None assms(3) new_Constant_ext[of h 0 h1 old B] show ?thesis by auto
  next
    case (Some r0)
    with rel obtain g0 where "dn x = Some g0" "\<exists>d. den h B r0 g0 d" by (cases "dn x") auto
    with Some assms(3) show ?thesis by (auto simp: ext_refl)
  qed
  then obtain d0 where e1: "ext h h1" and o: "den h1 B old ?o d0" by blast
  from new_Add_ext[OF assms(4)[unfolded sym_add_nodes] o ext_den[OF e1 assms(2)]]
  obtain d1 where e2: "ext h1 h2" and s: "den h2 B s (?o + g) d1" by blast
  have e: "ext h h2" using e1 e2 by (rule ext_trans)
  have "rel_option (\<lambda>g r. \<exists>d. den h2 B r g d) (dn y) (ds y)" for y
    using drel_ext[OF assms(1) e] by (simp add: drel_def)
  with s e show ?thesis by (simp add: drel_def) blast
qed


lemma postorder_cases:
  assumes "postorder j h n = Some ns"
  obtains (leaf) nd where "node_at h n = Some nd" "children h nd = Some []" "ns = [n]"
  | (binary) nd a b j' xs ys where "node_at h n = Some nd" "children h nd = Some [a, b]"
      "j = Suc j'" "postorder j' h a = Some xs" "postorder j' h b = Some ys" "ns = xs @ ys @ [n]"
proof (cases j)
  case 0
  with assms show ?thesis by simp
next
  case (Suc j')
  with assms obtain nd cs where nd: "node_at h n = Some nd" and cs: "children h nd = Some cs"
    by (auto split: option.splits)
  from children_cases[OF cs] show ?thesis
  proof
    assume "cs = []"
    with assms Suc nd cs show ?thesis by (auto simp: postorder_Suc intro: leaf)
  next
    assume "\<exists>a b. cs = [a, b]"
    then obtain a b where ab: "cs = [a, b]" by blast
    with assms Suc nd cs obtain xs ys where "postorder j' h a = Some xs"
      "postorder j' h b = Some ys" "ns = xs @ ys @ [n]"
      by (auto simp: postorder_Suc split: option.splits)
    with nd cs ab Suc show ?thesis by (auto intro: binary)
  qed
qed

text \<open>The local gradients of one dequeued node, numeric and symbolic.\<close>

lemma local_gradients:
  assumes po: "postorder j h n = Some ns" "set ns \<subseteq> R"
    and G1: "vals_ok h B vals" and G2: "\<forall>m\<in>R. vals (key_of h m) \<noteq> None"
    and G3: "\<forall>m\<in>R. \<forall>s. node_at h m = Some (Symbol s) \<longrightarrow> B (KSym s) \<noteq> None"
    and e: "ext h h2" and r: "den h2 B r g dr"
  shows "\<exists>nd cs lg h3 lgs h4 data nss.
      node_at h n = Some nd \<and> children h nd = Some cs \<and>
      compute_gradient h vals nd = Some (Inr lg) \<and>
      symbolic_local h2 nd = Some (h3, lgs) \<and> mul_all h3 lgs r = (h4, data) \<and>
      ext h2 h4 \<and>
      list_all2 (q_po h R) (zip cs (map (\<lambda>l. l * g) lg)) nss \<and>
      list_all2 (q_den h4 B) (zip cs (map (\<lambda>l. l * g) lg)) (zip cs data) \<and>
      Suc (length (concat nss)) = length ns \<and> set ns = insert n (set (concat nss))"
  using po(1)
proof (cases rule: postorder_cases)
  case (leaf nd)
  then have "compute_gradient h vals nd = Some (Inr [])" "symbolic_local h2 nd = Some (h2, [])"
    by (cases nd; simp add: children_def compute_gradient_def symbolic_local_def split: option.splits)+
  with leaf show ?thesis by (auto simp: ext_refl)
next
  case (binary nd a b j' xs ys)
  have sub: "set xs \<subseteq> R" "set ys \<subseteq> R" using po(2) binary(6) by auto
  have qa: "\<And>x. q_po h R (a, x) xs" and qb: "\<And>x. q_po h R (b, x) ys"
    using binary(4,5) sub by (auto simp: q_po_def)
  have size: "Suc (length (concat [xs, ys])) = length ns" "set ns = insert n (set (concat [xs, ys]))"
    using binary(6) by auto
  from binary(2) obtain c where c: "nd = Add c \<or> nd = Mul c" "kids_at h c = Some (a, b)"
    by (cases nd) (auto simp: children_def)
  from c(1) show ?thesis
  proof
    assume nd: "nd = Add c"
    obtain h21 l0 where l0: "new_Constant h2 1 = (h21, l0)" by (cases "new_Constant h2 1")
    obtain h3 l1 where l1: "new_Constant h21 1 = (h3, l1)" by (cases "new_Constant h21 1")
    obtain h4 data where ma: "mul_all h3 [l0, l1] r = (h4, data)" by (cases "mul_all h3 [l0, l1] r")
    from new_Constant_ext[OF l0, of B] new_Constant_ext[OF l1, of B]
    have e21: "ext h2 h21" and e3: "ext h21 h3" and d0: "den h21 B l0 1 (Suc 0)" and d1: "den h3 B l1 1 (Suc 0)"
      by auto
    have e23: "ext h2 h3" using e21 e3 by (rule ext_trans)
    have "list_all2 (\<lambda>l lv. \<exists>d. den h3 B l lv d) [l0, l1] [1, 1]"
      using ext_den[OF e3 d0] d1 by auto
    from mul_all_den[OF ma ext_den[OF e23 r] this]
    have e34: "ext h3 h4" and dd: "list_all2 (\<lambda>m mv. \<exists>d. den h4 B m mv d) data [1 * g, 1 * g]"
      by simp_all
    from dd obtain m0 m1 where data: "data = [m0, m1]" "\<exists>d. den h4 B m0 (1 * g) d" "\<exists>d. den h4 B m1 (1 * g) d"
      by (auto simp: list_all2_Cons2)
    have "ext h2 h4" using e23 e34 by (rule ext_trans)
    moreover have "symbolic_local h2 nd = Some (h3, [l0, l1])"
      using nd l0 l1 by (simp add: symbolic_local_def)
    moreover have "compute_gradient h vals nd = Some (Inr [1, 1])"
      using nd by (simp add: compute_gradient_def)
    moreover have "list_all2 (q_po h R) (zip [a, b] (map (\<lambda>l. l * g) [1, 1])) [xs, ys]"
      using qa qb by simp
    moreover have "list_all2 (q_den h4 B) (zip [a, b] (map (\<lambda>l. l * g) [1, 1])) (zip [a, b] data)"
      using data by (simp add: q_den_def)
    ultimately show ?thesis using binary(1,2) ma size by blast
  next
    assume nd: "nd = Mul c"
    have G3a: "\<forall>m\<in>set xs. \<forall>s. node_at h m = Some (Symbol s) \<longrightarrow> B (KSym s) \<noteq> None"
      and G3b: "\<forall>m\<in>set ys. \<forall>s. node_at h m = Some (Symbol s) \<longrightarrow> B (KSym s) \<noteq> None"
      using G3 sub by auto
    from postorder_den[OF binary(4) G3a] obtain va where va: "den h B a va (length xs)" by blast
    from postorder_den[OF binary(5) G3b] obtain vb where vb: "den h B b vb (length ys)" by blast
    have "a \<in> R" "b \<in> R" using postorder_last[OF binary(4)] postorder_last[OF binary(5)] sub by auto
    with G2 obtain x y where xy: "vals (key_of h a) = Some x" "vals (key_of h b) = Some y" by fastforce
    have x: "x = va" using G1 xy(1) va by (rule vals_ok_key)
    have y: "y = vb" using G1 xy(2) vb by (rule vals_ok_key)
    obtain h4 data where ma: "mul_all h2 [b, a] r = (h4, data)" by (cases "mul_all h2 [b, a] r")
    have "list_all2 (\<lambda>l lv. \<exists>d. den h2 B l lv d) [b, a] [vb, va]"
      using ext_den[OF e va] ext_den[OF e vb] by auto
    from mul_all_den[OF ma r this]
    have e24: "ext h2 h4" and dd: "list_all2 (\<lambda>m mv. \<exists>d. den h4 B m mv d) data [vb * g, va * g]"
      by simp_all
    from dd obtain m0 m1 where data: "data = [m0, m1]" "\<exists>d. den h4 B m0 (vb * g) d" "\<exists>d. den h4 B m1 (va * g) d"
      by (auto simp: list_all2_Cons2)
    have "symbolic_local h2 nd = Some (h2, [b, a])"
      using nd ext_kids[OF e c(2)] by (simp add: symbolic_local_def)
    moreover have "compute_gradient h vals nd = Some (Inr [vb, va])"
      using nd c(2) xy x y by (simp add: compute_gradient_def lookup_def)
    moreover have "list_all2 (q_po h R) (zip [a, b] (map (\<lambda>l. l * g) [vb, va])) [xs, ys]"
      using qa qb by simp
    moreover have "list_all2 (q_den h4 B) (zip [a, b] (map (\<lambda>l. l * g) [vb, va])) (zip [a, b] data)"
      using data by (simp add: q_den_def)
    ultimately show ?thesis using binary(1,2) ma size e24 by blast
  qed
qed


lemma q_den_ext: "q_den h B p ps \<Longrightarrow> ext h h' \<Longrightarrow> q_den h' B p ps"
  by (auto simp: q_den_def intro: ext_den)

lemma q_po_nonempty: "q_po h R p ns \<Longrightarrow> ns \<noteq> []"
  by (auto simp: q_po_def dest: postorder_last)

text \<open>The two loops run in lockstep: the same nodes are dequeued in the same order, and what
  the symbolic loop builds denotes what the numeric loop computes.\<close>

lemma lockstep:
  assumes G1: "vals_ok h B vals" and G2: "\<forall>m\<in>R. vals (key_of h m) \<noteq> None"
    and G3: "\<forall>m\<in>R. \<forall>s. node_at h m = Some (Symbol s) \<longrightarrow> B (KSym s) \<noteq> None"
  shows "ext h h' \<Longrightarrow> list_all2 (q_po h R) q nss \<Longrightarrow> length (concat nss) \<le> k \<Longrightarrow>
     list_all2 (q_den h' B) q qs \<Longrightarrow> drel h' B dn ds \<Longrightarrow>
     \<exists>dn' h'' ds'. numeric_loop k h vals q dn = Some (Inr dn') \<and>
        symbolic_loop k h' qs ds = Some (h'', ds') \<and> ext h h'' \<and> drel h'' B dn' ds' \<and>
        (\<forall>x. dn x \<noteq> None \<longrightarrow> dn' x \<noteq> None) \<and>
        (\<forall>m\<in>set (concat nss). dn' (key_of h m) \<noteq> None)"
proof (induction k arbitrary: h' q nss qs dn ds)
  case 0
  from 0(2,3) have "q = []" "nss = []"
    by (cases q; cases nss; auto dest: q_po_nonempty)+
  with 0 show ?case by auto
next
  case (Suc k)
  show ?case
  proof (cases q)
    case Nil
    with Suc.prems show ?thesis by auto
  next
    case (Cons p q')
    obtain n g where p: "p = (n, g)" by (cases p)
    from Suc.prems(2) Cons obtain ns nss' where nss: "nss = ns # nss'" and ns: "q_po h R p ns"
      and rest_po: "list_all2 (q_po h R) q' nss'" by (auto simp: list_all2_Cons1)
    from Suc.prems(4) Cons obtain ps qs' where qs: "qs = ps # qs'" and ps: "q_den h' B p ps"
      and rest_den: "list_all2 (q_den h' B) q' qs'" by (auto simp: list_all2_Cons1)
    from ps p obtain r dr where r: "ps = (n, r)" "den h' B r g dr"
      by (cases ps) (auto simp: q_den_def)
    from ns p obtain j where po: "postorder j h n = Some ns" "set ns \<subseteq> R"
      by (auto simp: q_po_def)
    let ?x = "key_of h n"
    let ?dn1 = "dn(?x \<mapsto> (case dn ?x of None \<Rightarrow> 0 | Some y \<Rightarrow> y) + g)"
    obtain h1 old where old: "(case ds ?x of Some r0 \<Rightarrow> (h', r0) | None \<Rightarrow> new_Constant h' 0) = (h1, old)"
      by (cases "case ds ?x of Some r0 \<Rightarrow> (h', r0) | None \<Rightarrow> new_Constant h' 0")
    obtain h2 s where s: "sym_add h1 (N old) (N r) = (h2, s)" by (cases "sym_add h1 (N old) (N r)")
    from accumulate_rel[OF Suc.prems(5) r(2) old s]
    have e2: "ext h' h2" and rel1: "drel h2 B ?dn1 (ds(?x \<mapsto> s))" by simp_all
    have e: "ext h h2" using Suc.prems(1) e2 by (rule ext_trans)
    from local_gradients[OF po G1 G2 G3 e ext_den[OF e2 r(2)]]
    obtain nd cs lg h3 lgs h4 data nssc where
      nd: "node_at h n = Some nd" and cs: "children h nd = Some cs"
      and lg: "compute_gradient h vals nd = Some (Inr lg)"
      and sl: "symbolic_local h2 nd = Some (h3, lgs)" and ma: "mul_all h3 lgs r = (h4, data)"
      and e4: "ext h2 h4"
      and po': "list_all2 (q_po h R) (zip cs (map (\<lambda>l. l * g) lg)) nssc"
      and den': "list_all2 (q_den h4 B) (zip cs (map (\<lambda>l. l * g) lg)) (zip cs data)"
      and size: "Suc (length (concat nssc)) = length ns"
      and cover: "set ns = insert n (set (concat nssc))"
      by blast
    have e': "ext h h4" using e e4 by (rule ext_trans)
    have key': "key_of h' n = ?x" using Suc.prems(1) nd by (rule ext_key)
    have num: "numeric_loop (Suc k) h vals q dn =
        numeric_loop k h vals (q' @ zip cs (map (\<lambda>l. l * g) lg)) ?dn1"
      using Cons p nd lg cs by simp
    have sym: "symbolic_loop (Suc k) h' qs ds =
        symbolic_loop k h4 (qs' @ zip cs data) (ds(?x \<mapsto> s))"
      using qs r(1) key' old s ext_node[OF e nd] sl ma ext_children[OF e' cs] by simp
    have 1: "list_all2 (q_po h R) (q' @ zip cs (map (\<lambda>l. l * g) lg)) (nss' @ nssc)"
      using rest_po po' by (rule list_all2_appendI)
    have 2: "length (concat (nss' @ nssc)) \<le> k"
      using Suc.prems(3) nss size by simp
    have "list_all2 (q_den h4 B) q' qs'"
      using rest_den ext_trans[OF e2 e4] by (auto elim!: list_all2_mono intro: q_den_ext)
    then have 3: "list_all2 (q_den h4 B) (q' @ zip cs (map (\<lambda>l. l * g) lg)) (qs' @ zip cs data)"
      using den' by (rule list_all2_appendI)
    have 4: "drel h4 B ?dn1 (ds(?x \<mapsto> s))" using rel1 e4 by (rule drel_ext)
    from Suc.IH[OF e' 1 2 3 4] obtain dn' h'' ds' where
      res: "numeric_loop k h vals (q' @ zip cs (map (\<lambda>l. l * g) lg)) ?dn1 = Some (Inr dn')"
      "symbolic_loop k h4 (qs' @ zip cs data) (ds(?x \<mapsto> s)) = Some (h'', ds')"
      "ext h h''" "drel h'' B dn' ds'"
      and mono: "\<forall>x. ?dn1 x \<noteq> None \<longrightarrow> dn' x \<noteq> None"
      and vis: "\<forall>m\<in>set (concat (nss' @ nssc)). dn' (key_of h m) \<noteq> None"
      by blast
    have "\<forall>x. dn x \<noteq> None \<longrightarrow> dn' x \<noteq> None" using mono by auto
    moreover have "dn' ?x \<noteq> None" using mono by auto
    with vis cover nss have "\<forall>m\<in>set (concat nss). dn' (key_of h m) \<noteq> None" by auto
    ultimately show ?thesis using res num sym by auto
  qed
qed


lemma gradients_agree:
  assumes po: "postorder k0 h e = Some ns"
    and bound: "\<forall>n\<in>set ns. \<forall>s. node_at h n = Some (Symbol s) \<longrightarrow> B (KSym s) \<noteq> None"
    and syms: "\<forall>r. B (KObj r) = None"
    and k: "length ns \<le> k"
  shows "\<exists>h' ds dn. symbolic_gradient k h e = Some (h', ds) \<and>
           numeric_gradient k h e B = Some (Inr dn) \<and> ext h h' \<and> drel h' B dn ds \<and>
           (\<forall>m\<in>set ns. dn (key_of h m) \<noteq> None)"
proof -
  from postorder_den[OF po bound] obtain v where v: "den h B e v (length ns)" by blast
  from values_den[OF v k syms] obtain ns' vals where ns': "postorder k h e = Some ns'"
    and vals: "values k h e B = Some (Inr vals)" "vals_ok h B vals"
    "\<forall>m\<in>set ns'. vals (key_of h m) \<noteq> None" by blast
  have "postorder (max k0 k) h e = Some ns" "postorder (max k0 k) h e = Some ns'"
    using postorder_fuel[OF po, of "max k0 k"] postorder_fuel[OF ns', of "max k0 k"] by simp_all
  then have same: "ns' = ns" by simp
  obtain h1 one where one: "new_Constant h 1 = (h1, one)" by (cases "new_Constant h 1")
  from new_Constant_ext[OF one, of B] have e1: "ext h h1" and d1: "den h1 B one 1 (Suc 0)" by auto
  have 1: "list_all2 (q_po h (set ns)) [(e, 1)] [ns]" using po by (auto simp: q_po_def)
  have 2: "length (concat [ns]) \<le> k" using k by simp
  have 3: "list_all2 (q_den h1 B) [(e, 1)] [(e, one)]" using d1 by (auto simp: q_den_def)
  have 4: "drel h1 B Map.empty Map.empty" by (simp add: drel_def)
  from vals(3) same have G2: "\<forall>m\<in>set ns. vals (key_of h m) \<noteq> None" by simp
  from lockstep[OF vals(2) G2 bound e1 1 2 3 4] obtain dn h' ds where
    "numeric_loop k h vals [(e, 1)] Map.empty = Some (Inr dn)"
    "symbolic_loop k h1 [(e, one)] Map.empty = Some (h', ds)" "ext h h'" "drel h' B dn ds"
    "\<forall>m\<in>set (concat [ns]). dn (key_of h m) \<noteq> None" by blast
  with vals(1) one show ?thesis
    by (auto simp: symbolic_gradient_def numeric_gradient_def)
qed

text \<open>
  C2. Let \<open>ns\<close> be the nodes that \<open>postorder\<close> yields from \<open>e\<close>, and let the bindings \<open>B\<close> bind
  \<open>Symbol\<close>s only and bind every \<open>Symbol\<close> among \<open>ns\<close>. With fuel of at least the number of
  yielded nodes both gradients return, and for every node \<open>x\<close> among \<open>ns\<close> (a \<open>Symbol\<close> in
  particular, whose key is its name) the symbolic derivative of \<open>x\<close> is a node whose value
  under \<open>B\<close>, in the heap that \<open>symbolic_gradient\<close> returns, is the numeric derivative of \<open>x\<close>.
\<close>

theorem symbolic_numeric_agree:
  assumes "postorder k0 h e = Some ns"
    and "\<forall>n\<in>set ns. \<forall>s. node_at h n = Some (Symbol s) \<longrightarrow> B (KSym s) \<noteq> None"
    and "\<forall>r. B (KObj r) = None"
    and "x \<in> set ns"
    and "length ns \<le> k"
  shows "\<exists>h' ds dn r g. symbolic_gradient k h e = Some (h', ds) \<and>
           numeric_gradient k h e B = Some (Inr dn) \<and>
           ds (key_of h x) = Some r \<and> dn (key_of h x) = Some g \<and>
           (\<exists>j. \<forall>i\<ge>j. value_of i h' r B = Some (Inr g))"
proof -
  from gradients_agree[OF assms(1,2,3,5)] obtain h' ds dn where
    g: "symbolic_gradient k h e = Some (h', ds)" "numeric_gradient k h e B = Some (Inr dn)"
    "drel h' B dn ds" "\<forall>m\<in>set ns. dn (key_of h m) \<noteq> None" by blast
  from g(4) assms(4) obtain gv where gv: "dn (key_of h x) = Some gv" by auto
  from g(3) have "rel_option (\<lambda>g r. \<exists>d. den h' B r g d) (dn (key_of h x)) (ds (key_of h x))"
    by (simp add: drel_def)
  with gv obtain r d where r: "ds (key_of h x) = Some r" "den h' B r gv d"
    by (cases "ds (key_of h x)") auto
  have "\<forall>i\<ge>d. value_of i h' r B = Some (Inr gv)"
    using value_of_den[OF r(2) _ assms(3)] by simp
  with g(1,2) gv r(1) show ?thesis by blast
qed

theorem symbolic_numeric_agree_witness:
  "case toy of (h, x, y, a, f) \<Rightarrow>
     postorder 3 h f = Some [x, y, a, x, f] \<and>
     (\<exists>h' ds dn r. symbolic_gradient 5 h f = Some (h', ds) \<and>
        numeric_gradient 5 h f xy23 = Some (Inr dn) \<and>
        ds (KSym ''x'') = Some r \<and> dn (KSym ''x'') = Some 7 \<and>
        (\<exists>j. \<forall>i\<ge>j. value_of i h' r xy23 = Some (Inr 7)))"
proof -
  define h where "h = \<lparr>nodes = [Symbol ''x'', Symbol ''y'', Add 0, Mul 1], kids = [(0, 1), (2, 0)]\<rparr>"
  have toy: "toy = (h, 0, 1, 2, 3)"
    by (simp add: toy_def h_def model_defs)
  have po: "postorder 3 h 3 = Some [0, 1, 2, 0, 3]"
    by (simp add: h_def model_defs eval_nat_numeral)
  have bound: "\<forall>n\<in>set [0, 1, 2, 0, 3]. \<forall>s. node_at h n = Some (Symbol s) \<longrightarrow> xy23 (KSym s) \<noteq> None"
    by (simp add: h_def node_at_def xy23_def)
  have syms: "\<forall>r. xy23 (KObj r) = None" by (simp add: xy23_def)
  have key: "key_of h 0 = KSym ''x''" by (simp add: h_def key_of_def node_at_def)
  have num: "case numeric_gradient 5 h 3 xy23 of Some (Inr d) \<Rightarrow> d (KSym ''x'') = Some 7 | _ \<Rightarrow> False"
    by (simp add: h_def xy23_def model_defs eval_nat_numeral)
  have "\<exists>h' ds dn r g. symbolic_gradient 5 h 3 = Some (h', ds) \<and>
      numeric_gradient 5 h 3 xy23 = Some (Inr dn) \<and>
      ds (KSym ''x'') = Some r \<and> dn (KSym ''x'') = Some g \<and>
      (\<exists>j. \<forall>i\<ge>j. value_of i h' r xy23 = Some (Inr g))"
    using symbolic_numeric_agree[OF po bound syms, of 0 5] key by simp
  then obtain h' ds dn r g where
    g: "symbolic_gradient 5 h 3 = Some (h', ds)" "numeric_gradient 5 h 3 xy23 = Some (Inr dn)"
    "ds (KSym ''x'') = Some r" "dn (KSym ''x'') = Some g"
    "\<exists>j. \<forall>i\<ge>j. value_of i h' r xy23 = Some (Inr g)" by blast
  from num g(2,4) have "g = 7" by simp
  with g po show ?thesis unfolding toy by auto
qed

subsection \<open>The caller's bindings\<close>

lemma st_match_set:
  assumes "st_match (dict_set \<sigma> v k x) v st pure"
  shows "st_match \<sigma> v st pure"
  using assms by (auto simp: st_match_def dict_set_def split: option.splits sum.splits)

lemma dict_set_at: "v < length \<sigma> \<Longrightarrow> dict_set \<sigma> v k x ! v = (\<sigma> ! v)(k \<mapsto> x)"
  by (simp add: dict_set_def)

lemma dict_set_other: "d \<noteq> v \<Longrightarrow> dict_set \<sigma> v k x ! d = \<sigma> ! d"
  by (simp add: dict_set_def)

lemma dict_set_length: "length (dict_set \<sigma> v k x) = length \<sigma>"
  by (simp add: dict_set_def)

lemma values_st_loop_match:
  "v < length \<sigma> \<Longrightarrow> st_match \<sigma> v (values_st_loop h \<sigma> v ns) (values_loop h (\<sigma> ! v) ns)"
proof (induction ns arbitrary: \<sigma>)
  case Nil
  then show ?case by (simp add: st_match_def)
next
  case (Cons n ns)
  show ?case
  proof (cases "(\<sigma> ! v) (key_of h n)")
    case (Some x)
    with Cons show ?thesis by (simp add: dict_at_def)
  next
    case None
    show ?thesis
    proof (cases "node_at h n")
      case None
      with \<open>(\<sigma> ! v) (key_of h n) = None\<close> Cons.prems show ?thesis
        by (simp add: dict_at_def st_match_def)
    next
      case (Some nd)
      show ?thesis
      proof (cases "compute_value h (\<sigma> ! v) nd")
        case None
        with Some \<open>(\<sigma> ! v) (key_of h n) = None\<close> Cons.prems show ?thesis
          by (simp add: dict_at_def st_match_def)
      next
        case res: (Some r)
        show ?thesis
        proof (cases r)
          case (Inl e)
          with res Some \<open>(\<sigma> ! v) (key_of h n) = None\<close> Cons.prems show ?thesis
            by (simp add: dict_at_def st_match_def)
        next
          case (Inr x)
          let ?\<sigma> = "dict_set \<sigma> v (key_of h n) x"
          have "v < length ?\<sigma>" using Cons.prems by (simp add: dict_set_length)
          from Cons.IH[OF this]
          have "st_match ?\<sigma> v (values_st_loop h ?\<sigma> v ns)
                  (values_loop h ((\<sigma> ! v)(key_of h n \<mapsto> x)) ns)"
            unfolding dict_set_at[OF Cons.prems] .
          then have m: "st_match \<sigma> v (values_st_loop h ?\<sigma> v ns)
                  (values_loop h ((\<sigma> ! v)(key_of h n \<mapsto> x)) ns)"
            by (rule st_match_set)
          have lhs: "values_st_loop h \<sigma> v (n # ns) = values_st_loop h ?\<sigma> v ns"
            using Inr res Some \<open>(\<sigma> ! v) (key_of h n) = None\<close> Cons.prems
            by (simp add: dict_at_def)
          have rhs: "values_loop h (\<sigma> ! v) (n # ns) =
              values_loop h ((\<sigma> ! v)(key_of h n \<mapsto> x)) ns"
            using Inr res Some \<open>(\<sigma> ! v) (key_of h n) = None\<close> by simp
          show ?thesis unfolding lhs rhs by (rule m)
        qed
      qed
    qed
  qed
qed


lemma numeric_st_loop_match:
  "d < length \<sigma> \<Longrightarrow> vals < length \<sigma> \<Longrightarrow> vals \<noteq> d \<Longrightarrow>
   st_match \<sigma> d (numeric_st_loop k h \<sigma> vals d q) (numeric_loop k h (\<sigma> ! vals) q (\<sigma> ! d))"
proof (induction k arbitrary: \<sigma> q)
  case 0
  then show ?case by (cases q) (simp_all add: st_match_def)
next
  case (Suc k)
  show ?case
  proof (cases q)
    case Nil
    then show ?thesis by (simp add: st_match_def)
  next
    case (Cons p q')
    obtain n g where p: "p = (n, g)" by (cases p)
    let ?x = "key_of h n"
    let ?new = "(case (\<sigma> ! d) ?x of None \<Rightarrow> 0 | Some y \<Rightarrow> y) + g"
    let ?\<sigma> = "dict_set \<sigma> d ?x ?new"
    have len: "d < length ?\<sigma>" "vals < length ?\<sigma>" using Suc.prems by (simp_all add: dict_set_length)
    have at_d: "?\<sigma> ! d = (\<sigma> ! d)(?x \<mapsto> ?new)" using Suc.prems(1) by (rule dict_set_at)
    have at_v: "?\<sigma> ! vals = \<sigma> ! vals" using Suc.prems(3) by (rule dict_set_other)
    have stop: "st_match \<sigma> d (Some (?\<sigma>, Inl e)) (Some (Inl e))" for e
      by (simp add: st_match_def dict_set_length dict_set_other)
    show ?thesis
    proof (cases "node_at h n")
      case None
      with Cons p Suc.prems show ?thesis by (simp add: dict_at_def Let_def st_match_def)
    next
      case (Some nd)
      show ?thesis
      proof (cases "compute_gradient h (\<sigma> ! vals) nd")
        case None
        with Some Cons p Suc.prems len at_v show ?thesis
          by (simp add: dict_at_def Let_def st_match_def)
      next
        case res: (Some r)
        show ?thesis
        proof (cases r)
          case (Inl e)
          have "numeric_st_loop (Suc k) h \<sigma> vals d q = Some (?\<sigma>, Inl e)"
            using Inl res Some Cons p Suc.prems len at_v by (simp add: dict_at_def Let_def)
          moreover have "numeric_loop (Suc k) h (\<sigma> ! vals) q (\<sigma> ! d) = Some (Inl e)"
            using Inl res Some Cons p by (simp add: Let_def)
          ultimately show ?thesis using stop by simp
        next
          case (Inr lg)
          show ?thesis
          proof (cases "children h nd")
            case None
            with Inr res Some Cons p Suc.prems len at_v show ?thesis
              by (simp add: dict_at_def Let_def st_match_def)
          next
            case cs: (Some cs)
            let ?q = "q' @ zip cs (map (\<lambda>l. l * g) lg)"
            from Suc.IH[OF len Suc.prems(3), of ?q]
            have "st_match ?\<sigma> d (numeric_st_loop k h ?\<sigma> vals d ?q)
                (numeric_loop k h (\<sigma> ! vals) ?q ((\<sigma> ! d)(?x \<mapsto> ?new)))"
              unfolding at_d at_v .
            then have m: "st_match \<sigma> d (numeric_st_loop k h ?\<sigma> vals d ?q)
                (numeric_loop k h (\<sigma> ! vals) ?q ((\<sigma> ! d)(?x \<mapsto> ?new)))"
              by (rule st_match_set)
            have lhs: "numeric_st_loop (Suc k) h \<sigma> vals d q = numeric_st_loop k h ?\<sigma> vals d ?q"
              using cs Inr res Some Cons p Suc.prems len at_v by (simp add: dict_at_def Let_def)
            have rhs: "numeric_loop (Suc k) h (\<sigma> ! vals) q (\<sigma> ! d) =
                numeric_loop k h (\<sigma> ! vals) ?q ((\<sigma> ! d)(?x \<mapsto> ?new))"
              using cs Inr res Some Cons p by (simp add: Let_def)
            show ?thesis unfolding lhs rhs by (rule m)
          qed
        qed
      qed
    qed
  qed
qed

lemma values_st_match:
  assumes "fargs < length \<sigma>"
  shows "case values_st k h \<sigma> f fargs of
           None \<Rightarrow> values k h f (\<sigma> ! fargs) = None
         | Some (\<sigma>', res) \<Rightarrow> length \<sigma>' = Suc (length \<sigma>) \<and> (\<forall>x<length \<sigma>. \<sigma>' ! x = \<sigma> ! x) \<and>
             (case res of
                Inl e \<Rightarrow> values k h f (\<sigma> ! fargs) = Some (Inl e)
              | Inr v \<Rightarrow> v = length \<sigma> \<and> values k h f (\<sigma> ! fargs) = Some (Inr (\<sigma>' ! v)))"
proof (cases "postorder k h f")
  case None
  then show ?thesis by (simp add: values_st_def values_def)
next
  case (Some ns)
  let ?v = "length \<sigma>"
  let ?\<sigma>2 = "(\<sigma> @ [Map.empty])[?v := \<sigma> ! fargs]"
  have up: "dict_update (\<sigma> @ [Map.empty]) ?v fargs = Some ?\<sigma>2"
    using assms by (simp add: dict_update_def dict_at_def nth_append)
  have v: "?v < length ?\<sigma>2" by simp
  have at: "?\<sigma>2 ! ?v = \<sigma> ! fargs" by simp
  have old: "?\<sigma>2 ! x = \<sigma> ! x" if "x < length \<sigma>" for x using that by (simp add: nth_append)
  from values_st_loop_match[OF v, of h ns]
  have m: "st_match ?\<sigma>2 ?v (values_st_loop h ?\<sigma>2 ?v ns) (values_loop h (\<sigma> ! fargs) ns)"
    unfolding at .
  have st: "values_st k h \<sigma> f fargs =
      (case values_st_loop h ?\<sigma>2 ?v ns of None \<Rightarrow> None
       | Some (\<sigma>3, Inl e) \<Rightarrow> Some (\<sigma>3, Inl e)
       | Some (\<sigma>3, Inr u) \<Rightarrow> Some (\<sigma>3, Inr ?v))"
    using Some up by (simp add: values_st_def dict_new_def)
  have pure: "values k h f (\<sigma> ! fargs) = values_loop h (\<sigma> ! fargs) ns"
    using Some by (simp add: values_def)
  show ?thesis
  proof (cases "values_st_loop h ?\<sigma>2 ?v ns")
    case None
    with m st pure show ?thesis by (simp add: st_match_def)
  next
    case (Some a)
    obtain \<sigma>3 r where a: "a = (\<sigma>3, r)" by (cases a)
    from m Some a have fr: "length \<sigma>3 = length ?\<sigma>2" "\<forall>x. x \<noteq> ?v \<longrightarrow> \<sigma>3 ! x = ?\<sigma>2 ! x"
      and r: "case r of Inl e \<Rightarrow> values_loop h (\<sigma> ! fargs) ns = Some (Inl e)
              | Inr u \<Rightarrow> values_loop h (\<sigma> ! fargs) ns = Some (Inr (\<sigma>3 ! ?v))"
      by (simp_all add: st_match_def)
    from fr old have frame: "length \<sigma>3 = Suc (length \<sigma>)" "\<forall>x<length \<sigma>. \<sigma>3 ! x = \<sigma> ! x"
      by auto
    with r st pure Some a show ?thesis by (cases r) simp_all
  qed
qed


lemma numeric_gradient_st_match:
  assumes "fargs < length \<sigma>"
  shows "case numeric_gradient_st k h \<sigma> f fargs of
           None \<Rightarrow> numeric_gradient k h f (\<sigma> ! fargs) = None
         | Some (\<sigma>', res) \<Rightarrow> length \<sigma> < length \<sigma>' \<and> (\<forall>x<length \<sigma>. \<sigma>' ! x = \<sigma> ! x) \<and>
             (case res of
                Inl e \<Rightarrow> numeric_gradient k h f (\<sigma> ! fargs) = Some (Inl e)
              | Inr d \<Rightarrow> length \<sigma> < d \<and>
                  numeric_gradient k h f (\<sigma> ! fargs) = Some (Inr (\<sigma>' ! d)))"
proof (cases "values_st k h \<sigma> f fargs")
  case None
  with values_st_match[OF assms, of k h f] show ?thesis
    by (simp add: numeric_gradient_st_def numeric_gradient_def)
next
  case (Some a)
  obtain \<sigma>1 r where a: "a = (\<sigma>1, r)" by (cases a)
  from values_st_match[OF assms, of k h f] Some a
  have fr: "length \<sigma>1 = Suc (length \<sigma>)" "\<forall>x<length \<sigma>. \<sigma>1 ! x = \<sigma> ! x"
    and r: "case r of Inl e \<Rightarrow> values k h f (\<sigma> ! fargs) = Some (Inl e)
       | Inr v \<Rightarrow> v = length \<sigma> \<and> values k h f (\<sigma> ! fargs) = Some (Inr (\<sigma>1 ! v))"
    by simp_all
  show ?thesis
  proof (cases r)
    case (Inl e)
    with r Some a fr show ?thesis
      by (simp add: numeric_gradient_st_def numeric_gradient_def)
  next
    case (Inr v)
    with r have v: "v = length \<sigma>" and pv: "values k h f (\<sigma> ! fargs) = Some (Inr (\<sigma>1 ! v))"
      by simp_all
    let ?d = "length \<sigma>1"
    let ?\<sigma>2 = "\<sigma>1 @ [Map.empty]"
    have "?d < length ?\<sigma>2" "v < length ?\<sigma>2" "v \<noteq> ?d" using v fr(1) by simp_all
    from numeric_st_loop_match[OF this, of k h "[(f, 1)]"]
    have m: "st_match ?\<sigma>2 ?d (numeric_st_loop k h ?\<sigma>2 v ?d [(f, 1)])
               (numeric_loop k h (\<sigma>1 ! v) [(f, 1)] Map.empty)"
      using v fr(1) by (simp add: nth_append)
    have st: "numeric_gradient_st k h \<sigma> f fargs =
        (case numeric_st_loop k h ?\<sigma>2 v ?d [(f, 1)] of None \<Rightarrow> None
         | Some (\<sigma>3, Inl e) \<Rightarrow> Some (\<sigma>3, Inl e)
         | Some (\<sigma>3, Inr u) \<Rightarrow> Some (\<sigma>3, Inr ?d))"
      using Some a Inr by (simp add: numeric_gradient_st_def dict_new_def)
    have pure: "numeric_gradient k h f (\<sigma> ! fargs) = numeric_loop k h (\<sigma>1 ! v) [(f, 1)] Map.empty"
      using pv by (simp add: numeric_gradient_def)
    show ?thesis
    proof (cases "numeric_st_loop k h ?\<sigma>2 v ?d [(f, 1)]")
      case None
      with m st pure show ?thesis by (simp add: st_match_def)
    next
      case (Some b)
      obtain \<sigma>3 r' where b: "b = (\<sigma>3, r')" by (cases b)
      from m Some b have fr3: "length \<sigma>3 = length ?\<sigma>2" "\<forall>x. x \<noteq> ?d \<longrightarrow> \<sigma>3 ! x = ?\<sigma>2 ! x"
        and r': "case r' of Inl e \<Rightarrow> numeric_loop k h (\<sigma>1 ! v) [(f, 1)] Map.empty = Some (Inl e)
              | Inr u \<Rightarrow> numeric_loop k h (\<sigma>1 ! v) [(f, 1)] Map.empty = Some (Inr (\<sigma>3 ! ?d))"
        by (simp_all add: st_match_def)
      have "\<sigma>3 ! x = \<sigma> ! x" if "x < length \<sigma>" for x
        using that fr3(2) fr by (simp add: nth_append)
      with fr3(1) fr(1) have frame: "length \<sigma> < length \<sigma>3" "\<forall>x<length \<sigma>. \<sigma>3 ! x = \<sigma> ! x"
        by simp_all
      with r' st pure Some b fr(1) show ?thesis by (cases r') simp_all
    qed
  qed
qed

text \<open>
  C10. Let the caller's bindings be the dictionary at address \<open>fargs\<close> of the store. Whenever
  \<open>values\<close> or \<open>numeric_gradient\<close> returns, with a dictionary or with an error, every
  dictionary the store held before the call, the bindings in particular, holds what it held
  before; the dictionary returned is a new object, not the bindings; and the call returns
  whenever, and what, the same function on dictionary values returns.
\<close>

theorem bindings_unchanged:
  assumes "fargs < length \<sigma>"
  shows "(\<forall>\<sigma>' res. values_st k h \<sigma> f fargs = Some (\<sigma>', res) \<longrightarrow>
            dict_at \<sigma>' fargs = dict_at \<sigma> fargs \<and> (\<forall>x<length \<sigma>. \<sigma>' ! x = \<sigma> ! x) \<and>
            (case res of Inl e \<Rightarrow> values k h f (\<sigma> ! fargs) = Some (Inl e)
             | Inr v \<Rightarrow> v \<noteq> fargs \<and> length \<sigma> \<le> v \<and>
                 values k h f (\<sigma> ! fargs) = Some (Inr (\<sigma>' ! v)))) \<and>
         (\<forall>\<sigma>' res. numeric_gradient_st k h \<sigma> f fargs = Some (\<sigma>', res) \<longrightarrow>
            dict_at \<sigma>' fargs = dict_at \<sigma> fargs \<and> (\<forall>x<length \<sigma>. \<sigma>' ! x = \<sigma> ! x) \<and>
            (case res of Inl e \<Rightarrow> numeric_gradient k h f (\<sigma> ! fargs) = Some (Inl e)
             | Inr d \<Rightarrow> d \<noteq> fargs \<and> length \<sigma> \<le> d \<and>
                 numeric_gradient k h f (\<sigma> ! fargs) = Some (Inr (\<sigma>' ! d)))) \<and>
         (values_st k h \<sigma> f fargs = None \<longleftrightarrow> values k h f (\<sigma> ! fargs) = None) \<and>
         (numeric_gradient_st k h \<sigma> f fargs = None \<longleftrightarrow> numeric_gradient k h f (\<sigma> ! fargs) = None)"
proof -
  note vm = values_st_match[OF assms, of k h f]
  note gm = numeric_gradient_st_match[OF assms, of k h f]
  have 1: "dict_at \<sigma>' fargs = dict_at \<sigma> fargs \<and> (\<forall>x<length \<sigma>. \<sigma>' ! x = \<sigma> ! x) \<and>
            (case res of Inl e \<Rightarrow> values k h f (\<sigma> ! fargs) = Some (Inl e)
             | Inr v \<Rightarrow> v \<noteq> fargs \<and> length \<sigma> \<le> v \<and>
                 values k h f (\<sigma> ! fargs) = Some (Inr (\<sigma>' ! v)))"
    if "values_st k h \<sigma> f fargs = Some (\<sigma>', res)" for \<sigma>' res
  proof -
    from vm that have fr: "length \<sigma>' = Suc (length \<sigma>)" "\<forall>x<length \<sigma>. \<sigma>' ! x = \<sigma> ! x"
      and r: "case res of Inl e \<Rightarrow> values k h f (\<sigma> ! fargs) = Some (Inl e)
         | Inr v \<Rightarrow> v = length \<sigma> \<and> values k h f (\<sigma> ! fargs) = Some (Inr (\<sigma>' ! v))"
      by simp_all
    from fr assms have "dict_at \<sigma>' fargs = dict_at \<sigma> fargs" by (simp add: dict_at_def)
    moreover from r assms have "case res of Inl e \<Rightarrow> values k h f (\<sigma> ! fargs) = Some (Inl e)
             | Inr v \<Rightarrow> v \<noteq> fargs \<and> length \<sigma> \<le> v \<and>
                 values k h f (\<sigma> ! fargs) = Some (Inr (\<sigma>' ! v))"
      by (cases res) auto
    ultimately show ?thesis using fr(2) by blast
  qed
  have 2: "dict_at \<sigma>' fargs = dict_at \<sigma> fargs \<and> (\<forall>x<length \<sigma>. \<sigma>' ! x = \<sigma> ! x) \<and>
            (case res of Inl e \<Rightarrow> numeric_gradient k h f (\<sigma> ! fargs) = Some (Inl e)
             | Inr d \<Rightarrow> d \<noteq> fargs \<and> length \<sigma> \<le> d \<and>
                 numeric_gradient k h f (\<sigma> ! fargs) = Some (Inr (\<sigma>' ! d)))"
    if "numeric_gradient_st k h \<sigma> f fargs = Some (\<sigma>', res)" for \<sigma>' res
  proof -
    from gm that have fr: "length \<sigma> < length \<sigma>'" "\<forall>x<length \<sigma>. \<sigma>' ! x = \<sigma> ! x"
      and r: "case res of Inl e \<Rightarrow> numeric_gradient k h f (\<sigma> ! fargs) = Some (Inl e)
         | Inr d \<Rightarrow> length \<sigma> < d \<and> numeric_gradient k h f (\<sigma> ! fargs) = Some (Inr (\<sigma>' ! d))"
      by simp_all
    from fr assms have "dict_at \<sigma>' fargs = dict_at \<sigma> fargs" by (simp add: dict_at_def)
    moreover from r assms have "case res of Inl e \<Rightarrow> numeric_gradient k h f (\<sigma> ! fargs) = Some (Inl e)
             | Inr d \<Rightarrow> d \<noteq> fargs \<and> length \<sigma> \<le> d \<and>
                 numeric_gradient k h f (\<sigma> ! fargs) = Some (Inr (\<sigma>' ! d))"
      by (cases res) auto
    ultimately show ?thesis using fr(2) by blast
  qed
  have 3: "values_st k h \<sigma> f fargs = None \<longleftrightarrow> values k h f (\<sigma> ! fargs) = None"
  proof (cases "values_st k h \<sigma> f fargs")
    case None
    with vm show ?thesis by simp
  next
    case (Some a)
    obtain \<sigma>' res where "a = (\<sigma>', res)" by (cases a)
    with vm Some show ?thesis by (cases res) auto
  qed
  have 4: "numeric_gradient_st k h \<sigma> f fargs = None \<longleftrightarrow> numeric_gradient k h f (\<sigma> ! fargs) = None"
  proof (cases "numeric_gradient_st k h \<sigma> f fargs")
    case None
    with gm show ?thesis by simp
  next
    case (Some a)
    obtain \<sigma>' res where "a = (\<sigma>', res)" by (cases a)
    with gm Some show ?thesis by (cases res) auto
  qed
  from 1 2 3 4 show ?thesis by blast
qed

theorem bindings_unchanged_witness:
  "case toy of (h, x, y, a, f) \<Rightarrow>
     (\<exists>\<sigma>' v. values_st 3 h [xy23] f 0 = Some (\<sigma>', Inr v) \<and> dict_at \<sigma>' 0 = Some xy23 \<and> v \<noteq> 0) \<and>
     (\<exists>\<sigma>' d. numeric_gradient_st 6 h [xy23] f 0 = Some (\<sigma>', Inr d) \<and> dict_at \<sigma>' 0 = Some xy23 \<and>
        d \<noteq> 0)"
proof -
  define h where "h = \<lparr>nodes = [Symbol ''x'', Symbol ''y'', Add 0, Mul 1], kids = [(0, 1), (2, 0)]\<rparr>"
  have toy: "toy = (h, 0, 1, 2, 3)"
    by (simp add: toy_def h_def model_defs)
  have fargs: "0 < length [xy23]" by simp
  have v: "case values 3 h 3 xy23 of Some (Inr m) \<Rightarrow> True | _ \<Rightarrow> False"
    by (simp add: h_def xy23_def model_defs eval_nat_numeral)
  have g: "case numeric_gradient 6 h 3 xy23 of Some (Inr m) \<Rightarrow> True | _ \<Rightarrow> False"
    by (simp add: h_def xy23_def model_defs eval_nat_numeral)
  have "\<exists>\<sigma>' v. values_st 3 h [xy23] 3 0 = Some (\<sigma>', Inr v) \<and> dict_at \<sigma>' 0 = Some xy23 \<and> v \<noteq> 0"
  proof (cases "values_st 3 h [xy23] 3 0")
    case None
    with bindings_unchanged[OF fargs, of 3 h 3] v show ?thesis by simp
  next
    case (Some a)
    obtain \<sigma>' res where a: "a = (\<sigma>', res)" by (cases a)
    from bindings_unchanged[OF fargs, of 3 h 3] Some a
    have "dict_at \<sigma>' 0 = dict_at [xy23] 0 \<and> (\<forall>x<length [xy23]. \<sigma>' ! x = [xy23] ! x) \<and>
        (case res of Inl e \<Rightarrow> values 3 h 3 ([xy23] ! 0) = Some (Inl e)
         | Inr v \<Rightarrow> v \<noteq> 0 \<and> length [xy23] \<le> v \<and> values 3 h 3 ([xy23] ! 0) = Some (Inr (\<sigma>' ! v)))"
      by blast
    with v Some a show ?thesis by (cases res) (auto simp: dict_at_def)
  qed
  moreover
  have "\<exists>\<sigma>' d. numeric_gradient_st 6 h [xy23] 3 0 = Some (\<sigma>', Inr d) \<and> dict_at \<sigma>' 0 = Some xy23 \<and> d \<noteq> 0"
  proof (cases "numeric_gradient_st 6 h [xy23] 3 0")
    case None
    with bindings_unchanged[OF fargs, of 6 h 3] g show ?thesis by simp
  next
    case (Some a)
    obtain \<sigma>' res where a: "a = (\<sigma>', res)" by (cases a)
    from bindings_unchanged[OF fargs, of 6 h 3] Some a
    have "dict_at \<sigma>' 0 = dict_at [xy23] 0 \<and> (\<forall>x<length [xy23]. \<sigma>' ! x = [xy23] ! x) \<and>
        (case res of Inl e \<Rightarrow> numeric_gradient 6 h 3 ([xy23] ! 0) = Some (Inl e)
         | Inr d \<Rightarrow> d \<noteq> 0 \<and> length [xy23] \<le> d \<and>
             numeric_gradient 6 h 3 ([xy23] ! 0) = Some (Inr (\<sigma>' ! d)))"
      by blast
    with g Some a show ?thesis by (cases res) (auto simp: dict_at_def)
  qed
  ultimately show ?thesis unfolding toy by simp
qed

end
